theory Spec2Isabelle
  imports Complex_Main
begin

section \<open>Data model\<close>

text \<open>
  A Python value is known to the program only through a reference.  An object is modelled
  by its identity (what \<^verbatim>\<open>id()\<close> returns, compared by \<^verbatim>\<open>is\<close>) and its value
  (compared by \<^verbatim>\<open>==\<close>).
\<close>

record 'v pyobj =
  ident :: nat
  val :: 'v

definition is_same :: "'v pyobj \<Rightarrow> 'v pyobj \<Rightarrow> bool" where
  \<comment> \<open>Python's \<^verbatim>\<open>a is b\<close>\<close>
  "is_same a b = (ident a = ident b)"

datatype error = ValueError | IndexError

text \<open>
  The location of a thread inside one call of \<^verbatim>\<open>put\<close>, \<^verbatim>\<open>get\<close> or \<^verbatim>\<open>qsize\<close>:
  \<^item> \<open>Acquire\<close>: at the entry of the \<^verbatim>\<open>with\<close> block, or inside \<^verbatim>\<open>wait()\<close> after the
    notification, about to take the lock;
  \<^item> \<open>Test\<close>: holding the lock, at the test of the \<^verbatim>\<open>while\<close> loop;
  \<^item> \<open>Waiting\<close>: inside \<^verbatim>\<open>wait()\<close>, the lock released, suspended until notified;
  \<^item> \<open>Commit\<close>: holding the lock, after the loop, at the straight-line rest of the block.
\<close>

datatype pc = Acquire | Test | Waiting | Commit

text \<open>
  \<^verbatim>\<open>BoundedBlockingQueue\<close>.  \<open>maxsize\<close> is annotated \<^verbatim>\<open>int\<close>, but Python does not
  enforce annotations and the code only compares it, so the field holds any number, by
  its exact value.  \<open>queue\<close> is the deque, left end first.  \<open>lock\<close> is the
  \<^verbatim>\<open>threading.Lock\<close>: the thread holding it, if any (the lock is not reentrant).
  A \<^verbatim>\<open>threading.Condition\<close> is its list of waiting threads, longest waiting first;
  both conditions share the one lock.
\<close>

record 'a bbq =
  maxsize :: rat
  queue :: "'a list"
  lock :: "nat option"
  not_empty :: "nat list"
  not_full :: "nat list"

definition BoundedBlockingQueue :: "rat \<Rightarrow> error + 'a bbq" where
  \<comment> \<open>\<^verbatim>\<open>__init__\<close>\<close>
  "BoundedBlockingQueue n =
     (if n \<le> 0 then Inl ValueError
      else Inr \<lparr>maxsize = n, queue = [], lock = None, not_empty = [], not_full = []\<rparr>)"

section \<open>The methods, one step at a time\<close>

definition notify :: "nat list \<Rightarrow> nat list" where
  \<comment> \<open>\<^verbatim>\<open>Condition.notify()\<close>: wakes the longest-waiting thread, if there is one, by
      taking it off the list of waiters\<close>
  "notify ws = (case ws of [] \<Rightarrow> [] | w # ws' \<Rightarrow> ws')"

text \<open>
  \<^verbatim>\<open>wait()\<close> puts the thread on the list of waiters and releases the lock in one step;
  the thread leaves \<^verbatim>\<open>wait()\<close> only after a \<^verbatim>\<open>notify()\<close> has taken it off the list,
  and then takes the lock again before it tests the loop condition anew.

  What one step of thread \<open>t\<close> inside a call does: the thread cannot move now (\<open>Stuck\<close>),
  it moves to another location, the call returns a value, or it raises.
\<close>

datatype ('a, 'r) outcome =
    Stuck
  | Goto pc "'a bbq"
  | Return 'r "'a bbq"
  | Raise error "'a bbq"

fun put_step :: "nat \<Rightarrow> 'a \<Rightarrow> pc \<Rightarrow> 'a bbq \<Rightarrow> ('a, unit) outcome" where
  "put_step t item Acquire q =
     (if lock q = None then Goto Test (q\<lparr>lock := Some t\<rparr>) else Stuck)"
| "put_step t item Test q =
     (if of_nat (length (queue q)) \<ge> maxsize q
      then Goto Waiting (q\<lparr>not_full := not_full q @ [t], lock := None\<rparr>)
      else Goto Commit q)"
| "put_step t item Waiting q =
     (if t \<in> set (not_full q) then Stuck else Goto Acquire q)"
| "put_step t item Commit q =
     Return () (q\<lparr>queue := queue q @ [item],
                  not_empty := notify (not_empty q),
                  lock := None\<rparr>)"

fun get_step :: "nat \<Rightarrow> pc \<Rightarrow> 'a bbq \<Rightarrow> ('a, 'a) outcome" where
  "get_step t Acquire q =
     (if lock q = None then Goto Test (q\<lparr>lock := Some t\<rparr>) else Stuck)"
| "get_step t Test q =
     (if queue q = []
      then Goto Waiting (q\<lparr>not_empty := not_empty q @ [t], lock := None\<rparr>)
      else Goto Commit q)"
| "get_step t Waiting q =
     (if t \<in> set (not_empty q) then Stuck else Goto Acquire q)"
| "get_step t Commit q =
     (case queue q of
        [] \<Rightarrow> Raise IndexError (q\<lparr>lock := None\<rparr>)
      | item # rest \<Rightarrow>
          Return item (q\<lparr>queue := rest,
                         not_full := notify (not_full q),
                         lock := None\<rparr>))"

text \<open>\<^verbatim>\<open>qsize\<close> has no loop and never waits: it takes the lock, reads the length and
  releases the lock.\<close>

fun qsize_step :: "nat \<Rightarrow> pc \<Rightarrow> 'a bbq \<Rightarrow> ('a, nat) outcome" where
  "qsize_step t Acquire q =
     (if lock q = None then Goto Commit (q\<lparr>lock := Some t\<rparr>) else Stuck)"
| "qsize_step t Commit q = Return (length (queue q)) (q\<lparr>lock := None\<rparr>)"
| "qsize_step t Test q = Stuck"
| "qsize_step t Waiting q = Stuck"

section \<open>A call made while no other thread runs\<close>

text \<open>
  \<open>alone step p q\<close> runs the steps of one call from location \<open>p\<close> until it returns or
  raises.  \<open>None\<close> means that the call never returns: the thread is stuck with nobody
  to free the lock or to notify it.  \<open>put\<close>, \<open>get\<close> and \<open>qsize\<close> are the methods called
  by thread \<open>t\<close> in this way.
\<close>

partial_function (option) alone ::
  "(pc \<Rightarrow> 'a bbq \<Rightarrow> ('a, 'r) outcome) \<Rightarrow> pc \<Rightarrow> 'a bbq \<Rightarrow> ((error + 'r) \<times> 'a bbq) option" where
  "alone step p q =
     (case step p q of
        Stuck \<Rightarrow> None
      | Goto p' q' \<Rightarrow> alone step p' q'
      | Return r q' \<Rightarrow> Some (Inr r, q')
      | Raise e q' \<Rightarrow> Some (Inl e, q'))"

declare alone.simps [code]

definition put :: "nat \<Rightarrow> 'a \<Rightarrow> 'a bbq \<Rightarrow> ((error + unit) \<times> 'a bbq) option" where
  "put t item q = alone (put_step t item) Acquire q"

definition get :: "nat \<Rightarrow> 'a bbq \<Rightarrow> ((error + 'a) \<times> 'a bbq) option" where
  "get t q = alone (get_step t) Acquire q"

definition qsize :: "nat \<Rightarrow> 'a bbq \<Rightarrow> ((error + nat) \<times> 'a bbq) option" where
  "qsize t q = alone (qsize_step t) Acquire q"

section \<open>Straight-line use by one thread\<close>

text \<open>
  The loops of the single-threaded tests: \<^verbatim>\<open>for item in items: q.put(item)\<close> and a
  row of \<open>n\<close> calls of \<^verbatim>\<open>get\<close> whose results are collected.  \<open>None\<close>: some call
  never returns, or raises.
\<close>

fun put_all :: "nat \<Rightarrow> 'a list \<Rightarrow> 'a bbq \<Rightarrow> 'a bbq option" where
  "put_all t [] q = Some q"
| "put_all t (item # items) q =
     (case put t item q of Some (Inr u, q') \<Rightarrow> put_all t items q' | _ \<Rightarrow> None)"

fun get_n :: "nat \<Rightarrow> nat \<Rightarrow> 'a bbq \<Rightarrow> ('a list \<times> 'a bbq) option" where
  "get_n t 0 q = Some ([], q)"
| "get_n t (Suc n) q =
     (case get t q of
        Some (Inr item, q') \<Rightarrow>
          (case get_n t n q' of Some (items, q'') \<Rightarrow> Some (item # items, q'') | None \<Rightarrow> None)
      | _ \<Rightarrow> None)"


section \<open>Threads\<close>

text \<open>
  The calls a thread makes on the shared queue, and what a call gives back: \<^verbatim>\<open>None\<close>
  from \<^verbatim>\<open>put\<close>, the item from \<^verbatim>\<open>get\<close>, the length from \<^verbatim>\<open>qsize\<close>.
\<close>

datatype 'a call = Put 'a | Get | QSize

datatype 'a reply = Unit | Got 'a | Len nat

fun call_step :: "nat \<Rightarrow> 'a call \<Rightarrow> pc \<Rightarrow> 'a bbq \<Rightarrow> ('a, 'a reply) outcome" where
  "call_step t (Put item) p q =
     (case put_step t item p q of
        Stuck \<Rightarrow> Stuck | Goto p' q' \<Rightarrow> Goto p' q'
      | Return r q' \<Rightarrow> Return Unit q' | Raise e q' \<Rightarrow> Raise e q')"
| "call_step t Get p q =
     (case get_step t p q of
        Stuck \<Rightarrow> Stuck | Goto p' q' \<Rightarrow> Goto p' q'
      | Return r q' \<Rightarrow> Return (Got r) q' | Raise e q' \<Rightarrow> Raise e q')"
| "call_step t QSize p q =
     (case qsize_step t p q of
        Stuck \<Rightarrow> Stuck | Goto p' q' \<Rightarrow> Goto p' q'
      | Return r q' \<Rightarrow> Return (Len r) q' | Raise e q' \<Rightarrow> Raise e q')"

text \<open>
  The code a thread still has to run:
  \<^item> \<open>Calls cs\<close>: straight-line code, the calls \<open>cs\<close> one after the other (a test body, or
    \<^verbatim>\<open>Producer.run\<close>); \<open>Calls []\<close> is a thread that has finished;
  \<^item> \<open>Consume s\<close>: the loop of \<^verbatim>\<open>Consumer.run\<close> with sentinel \<open>s\<close>;
  \<^item> \<open>Died e\<close>: the thread ended with the uncaught exception \<open>e\<close>.
\<close>

datatype 'v code = Calls "'v pyobj call list" | Consume "'v pyobj" | Died error

text \<open>
  A thread: its remaining code, its location inside the call it is making, the
  destination list of a consumer, and the values its calls have returned so far.
\<close>

record 'v thread =
  code :: "'v code"
  pc :: pc
  dest :: "'v pyobj list"
  replies :: "'v pyobj reply list"

definition Producer :: "'v pyobj list \<Rightarrow> 'v pyobj \<Rightarrow> 'v thread" where
  \<comment> \<open>\<^verbatim>\<open>Producer.run\<close>: one \<^verbatim>\<open>put\<close> for each item of the source, in order, then one for
      the sentinel\<close>
  "Producer source sentinel =
     \<lparr>code = Calls (map Put source @ [Put sentinel]), pc = Acquire, dest = [], replies = []\<rparr>"

definition Consumer :: "'v pyobj list \<Rightarrow> 'v pyobj \<Rightarrow> 'v thread" where
  \<comment> \<open>\<^verbatim>\<open>Consumer.run\<close>: the loop that calls \<^verbatim>\<open>get\<close> until it returns the sentinel;
      \<open>d\<close> is the destination list the thread was given\<close>
  "Consumer d sentinel = \<lparr>code = Consume sentinel, pc = Acquire, dest = d, replies = []\<rparr>"

definition caller :: "'v pyobj call list \<Rightarrow> 'v thread" where
  \<comment> \<open>a thread that makes the given calls, as the bodies of the tests do\<close>
  "caller cs = \<lparr>code = Calls cs, pc = Acquire, dest = [], replies = []\<rparr>"

record 'v system =
  shared :: "'v pyobj bbq"
  threads :: "'v thread list"

definition finished :: "'v thread \<Rightarrow> bool" where
  "finished th = (code th = Calls [])"

definition died :: "'v thread \<Rightarrow> bool" where
  "died th = (case code th of Died e \<Rightarrow> True | _ \<Rightarrow> False)"

text \<open>
  What thread \<open>t\<close> does next, given its own state and the shared queue.  \<open>None\<close>: the
  thread cannot move (it has ended, it needs the lock another thread holds, or it waits
  for a notification).  In \<^verbatim>\<open>Consumer.run\<close> the test of the item and the \<^verbatim>\<open>append\<close>
  touch only the consumer's own data and are done with the step in which \<^verbatim>\<open>get\<close>
  returns.
\<close>

definition thread_move ::
  "nat \<Rightarrow> 'v thread \<Rightarrow> 'v pyobj bbq \<Rightarrow> ('v thread \<times> 'v pyobj bbq) option" where
  "thread_move t th q =
     (case code th of
        Died e \<Rightarrow> None
      | Calls [] \<Rightarrow> None
      | Calls (c # cs) \<Rightarrow>
          (case call_step t c (pc th) q of
             Stuck \<Rightarrow> None
           | Goto p q' \<Rightarrow> Some (th\<lparr>pc := p\<rparr>, q')
           | Return r q' \<Rightarrow>
               Some (th\<lparr>code := Calls cs, pc := Acquire, replies := replies th @ [r]\<rparr>, q')
           | Raise e q' \<Rightarrow> Some (th\<lparr>code := Died e\<rparr>, q'))
      | Consume sentinel \<Rightarrow>
          (case get_step t (pc th) q of
             Stuck \<Rightarrow> None
           | Goto p q' \<Rightarrow> Some (th\<lparr>pc := p\<rparr>, q')
           | Return item q' \<Rightarrow>
               Some (if is_same item sentinel then th\<lparr>code := Calls [], pc := Acquire\<rparr>
                     else th\<lparr>pc := Acquire, dest := dest th @ [item]\<rparr>, q')
           | Raise e q' \<Rightarrow> Some (th\<lparr>code := Died e\<rparr>, q')))"

text \<open>One step of the system: thread \<open>t\<close>, the index of the thread in \<open>threads\<close>, moves.\<close>

definition thread_step :: "nat \<Rightarrow> 'v system \<Rightarrow> 'v system option" where
  "thread_step t s =
     (if t \<ge> length (threads s) then None
      else case thread_move t (threads s ! t) (shared s) of
             None \<Rightarrow> None
           | Some (th', q') \<Rightarrow> Some \<lparr>shared = q', threads = (threads s)[t := th']\<rparr>)"

text \<open>The step relation of the system: some thread moves.\<close>

definition step :: "'v system \<Rightarrow> 'v system \<Rightarrow> bool" where
  "step s s' = (\<exists>t \<in> {..<length (threads s)}. thread_step t s = Some s')"

definition reachable :: "'v system \<Rightarrow> 'v system \<Rightarrow> bool" where
  "reachable s s' = (step\<^sup>*\<^sup>* s s')"

text \<open>A schedule names the thread that moves at each step; a thread that cannot move
  when it is named makes the schedule impossible.\<close>

fun exec :: "nat list \<Rightarrow> 'v system \<Rightarrow> 'v system option" where
  "exec [] s = Some s"
| "exec (t # ts) s = (case thread_step t s of None \<Rightarrow> None | Some s' \<Rightarrow> exec ts s')"

text \<open>Thread \<open>t\<close> run while no other thread moves, until it has finished or died.\<close>

partial_function (option) run_alone :: "nat \<Rightarrow> 'v system \<Rightarrow> 'v system option" where
  "run_alone t s =
     (if t < length (threads s) \<and> (finished (threads s ! t) \<or> died (threads s ! t))
      then Some s
      else case thread_step t s of None \<Rightarrow> None | Some s' \<Rightarrow> run_alone t s')"

declare run_alone.simps [code]

section \<open>Invariants of any set of threads\<close>

text \<open>
  The call a thread is making.  A thread holds the lock when it is inside a call at the
  loop test or after it.  \<open>mutex_inv\<close>: the lock names whoever is in such a location, so
  at most one thread is.  \<open>ready\<close>: a thread that has left the loop of \<^verbatim>\<open>put\<close> sees
  room, one that has left the loop of \<^verbatim>\<open>get\<close> sees an item.  \<open>sizes_ok\<close>: every
  length that \<^verbatim>\<open>qsize\<close> returned to the thread is within the capacity.
\<close>

definition next_call :: "'v thread \<Rightarrow> 'v pyobj call option" where
  "next_call th = (case code th of Calls (c # cs) \<Rightarrow> Some c | Consume s \<Rightarrow> Some Get | _ \<Rightarrow> None)"

definition holds_lock :: "'v thread \<Rightarrow> bool" where
  "holds_lock th = (next_call th \<noteq> None \<and> (pc th = Test \<or> pc th = Commit))"

definition mutex_inv :: "'v system \<Rightarrow> bool" where
  "mutex_inv s = (\<forall>t < length (threads s). holds_lock (threads s ! t) \<longrightarrow> lock (shared s) = Some t)"

definition ready :: "'v pyobj bbq \<Rightarrow> 'v thread \<Rightarrow> bool" where
  "ready q th =
     (pc th = Commit \<longrightarrow>
        (case next_call th of
           Some (Put x) \<Rightarrow> of_nat (length (queue q)) < maxsize q
         | Some Get \<Rightarrow> queue q \<noteq> []
         | _ \<Rightarrow> True))"

definition sizes_ok :: "'v pyobj bbq \<Rightarrow> 'v thread \<Rightarrow> bool" where
  "sizes_ok q th = (\<forall>n. Len n \<in> set (replies th) \<longrightarrow> of_nat n \<le> maxsize q)"

definition occupancy_inv :: "int \<Rightarrow> 'v system \<Rightarrow> bool" where
  "occupancy_inv c s =
     (maxsize (shared s) = of_int c \<and> mutex_inv s
      \<and> of_nat (length (queue (shared s))) \<le> maxsize (shared s)
      \<and> (\<forall>t < length (threads s).
            ready (shared s) (threads s ! t) \<and> sizes_ok (shared s) (threads s ! t)
            \<and> \<not> died (threads s ! t)))"

definition unstarted :: "'v thread \<Rightarrow> bool" where
  "unstarted th = (pc th = Acquire \<and> replies th = [] \<and> \<not> died th)"

text \<open>
  \<open>clean_dest\<close>: the thread is a consumer with the given sentinel, running or ended, and
  no object of its destination list is the sentinel.
\<close>

definition clean_dest :: "'v pyobj \<Rightarrow> 'v thread \<Rightarrow> bool" where
  "clean_dest sentinel th =
     ((code th = Consume sentinel \<or> finished th \<or> died th)
      \<and> (\<forall>x \<in> set (dest th). \<not> is_same x sentinel))"

section \<open>One producer and one consumer\<close>

text \<open>
  The two threads of a session, once both have been started: the producer is thread 0,
  the consumer thread 1.
\<close>

definition session :: "'v pyobj bbq \<Rightarrow> 'v pyobj list \<Rightarrow> 'v pyobj \<Rightarrow> 'v system" where
  "session q source sentinel =
     \<lparr>shared = q, threads = [Producer source sentinel, Consumer [] sentinel]\<rparr>"

text \<open>
  \<^verbatim>\<open>run_producer_consumer\<close>: the source holds the integers 1 to 20, each one object,
  here with its value as identity; the sentinel is a fresh \<^verbatim>\<open>object()\<close>, whose
  identity differs from that of every other object, and the queue has capacity 10.  The result is the session after both \<^verbatim>\<open>start()\<close> calls; the
  two \<^verbatim>\<open>join()\<close> calls return in the states where both threads have finished.
\<close>

datatype pyval = IntV int | ObjectV

definition source_data :: "pyval pyobj list" where
  "source_data = map (\<lambda>i. \<lparr>ident = nat i, val = IntV i\<rparr>) [1..20]"

definition SENTINEL :: "pyval pyobj" where
  "SENTINEL = \<lparr>ident = 0, val = ObjectV\<rparr>"

definition run_producer_consumer :: "error + pyval system" where
  "run_producer_consumer =
     (case BoundedBlockingQueue 10 of
        Inl e \<Rightarrow> Inl e
      | Inr q \<Rightarrow> Inr (session q source_data SENTINEL))"

text \<open>
  A schedule of the session in which both threads get blocked: the consumer starts on
  the empty queue and waits, the producer fills the queue and waits, and so on.
\<close>

definition blocking_schedule :: "nat list" where
  "blocking_schedule =
     [1, 1] @ replicate 30 0 @ [0, 0] @ [1] @ replicate 30 1 @ [0] @ replicate 30 0 @ [0, 0]
     @ replicate 30 1 @ [1, 1] @ [0] @ [0, 0, 0] @ [1] @ [1, 1, 1]"

text \<open>
  Invariants of a session with source \<open>src\<close> and sentinel \<open>S\<close>, for the producer \<open>P\<close>,
  the consumer \<open>C\<close> and the queue \<open>q\<close>; \<open>rest\<close> are the items the producer has still to
  put.
  \<^item> \<open>transfer_inv\<close>: what was consumed, what is buffered and what is still to put make
    up the source followed by the sentinel, and the consumer has finished only after
    taking the sentinel.
  \<^item> \<open>locking_inv\<close>: the lock names the thread that is between acquiring and releasing
    it, and at most one thread is.
  \<^item> \<open>waiting_inv\<close>: a thread past its loop finds the queue as the loop test left it; a
    thread in a list of waiters is suspended, and the queue is as it found it (full for
    the producer, empty for the consumer).
\<close>

definition transfer_inv ::
  "'v pyobj list \<Rightarrow> 'v pyobj \<Rightarrow> 'v pyobj list \<Rightarrow> 'v thread \<Rightarrow> 'v thread \<Rightarrow> 'v pyobj bbq
     \<Rightarrow> bool" where
  "transfer_inv src S rest P C q =
     (code P = Calls (map Put rest)
      \<and> (rest = [] \<longrightarrow> pc P = Acquire)
      \<and> (if code C = Consume S then dest C @ queue q @ rest = src @ [S]
         else code C = Calls [] \<and> pc C = Acquire \<and> dest C = src \<and> queue q = [] \<and> rest = [])
      \<and> (\<forall>x \<in> set (dest C). \<not> is_same x S))"

definition locking_inv :: "'v thread \<Rightarrow> 'v thread \<Rightarrow> 'v pyobj bbq \<Rightarrow> bool" where
  "locking_inv P C q =
     (lock q = (if pc P = Test \<or> pc P = Commit then Some 0
                else if pc C = Test \<or> pc C = Commit then Some 1 else None)
      \<and> \<not> ((pc P = Test \<or> pc P = Commit) \<and> (pc C = Test \<or> pc C = Commit)))"

definition waiting_inv :: "'v thread \<Rightarrow> 'v thread \<Rightarrow> 'v pyobj bbq \<Rightarrow> bool" where
  "waiting_inv P C q =
     (0 < maxsize q
      \<and> (pc P = Commit \<longrightarrow> of_nat (length (queue q)) < maxsize q)
      \<and> (pc C = Commit \<longrightarrow> queue q \<noteq> [])
      \<and> (not_full q = [] \<or> not_full q = [0])
      \<and> (not_empty q = [] \<or> not_empty q = [1])
      \<and> (0 \<in> set (not_full q) \<longrightarrow> pc P = Waiting \<and> maxsize q \<le> of_nat (length (queue q)))
      \<and> (1 \<in> set (not_empty q) \<longrightarrow> pc C = Waiting \<and> queue q = []))"

definition pair_inv ::
  "'v pyobj list \<Rightarrow> 'v pyobj \<Rightarrow> 'v pyobj list \<Rightarrow> 'v thread \<Rightarrow> 'v thread \<Rightarrow> 'v pyobj bbq
     \<Rightarrow> bool" where
  "pair_inv src S rest P C q =
     (transfer_inv src S rest P C q \<and> locking_inv P C q \<and> waiting_inv P C q)"

definition session_inv :: "'v pyobj list \<Rightarrow> 'v pyobj \<Rightarrow> 'v system \<Rightarrow> bool" where
  "session_inv src S s =
     (\<exists>rest P C. threads s = [P, C] \<and> pair_inv src S rest P C (shared s))"

text \<open>
  A bound on the steps a session can still take: each \<^verbatim>\<open>put\<close> and \<^verbatim>\<open>get\<close> still to
  complete weighs 6, and \<open>rank\<close> counts the steps left to a thread before its call
  completes or it is suspended.
\<close>

definition rank :: "nat list \<Rightarrow> nat \<Rightarrow> 'v thread \<Rightarrow> nat" where
  "rank ws t th =
     (case code th of
        Calls [] \<Rightarrow> 0
      | Died e \<Rightarrow> 0
      | _ \<Rightarrow> (case pc th of
                Acquire \<Rightarrow> 3 | Test \<Rightarrow> 2 | Commit \<Rightarrow> 1
              | Waiting \<Rightarrow> if t \<in> set ws then 1 else 4))"

definition todo :: "'v thread \<Rightarrow> nat" where
  "todo th = (case code th of Calls cs \<Rightarrow> length cs | _ \<Rightarrow> 0)"

definition effort :: "'v system \<Rightarrow> nat" where
  "effort s =
     6 * (2 * todo (threads s ! 0) + length (queue (shared s)))
     + rank (not_full (shared s)) 0 (threads s ! 0)
     + rank (not_empty (shared s)) 1 (threads s ! 1)"

section \<open>Calls made by one thread alone\<close>

text \<open>
  A call runs through at most three locations when no other thread moves, so three
  unfoldings of \<open>alone\<close> decide it.
\<close>

lemma put_returns:
  assumes "lock q = None" "of_nat (length (queue q)) < maxsize q"
  shows "put t x q = Some (Inr (), q\<lparr>queue := queue q @ [x], not_empty := notify (not_empty q)\<rparr>)"
  using assms unfolding put_def
  apply (subst alone.simps, simp)
  apply (subst alone.simps, simp)
  apply (subst alone.simps, simp)
  done

lemma put_blocks:
  assumes "lock q = None" "of_nat (length (queue q)) \<ge> maxsize q"
  shows "put t x q = None"
  using assms unfolding put_def
  apply (subst alone.simps, simp)
  apply (subst alone.simps, simp)
  apply (subst alone.simps, simp)
  done

lemma get_returns:
  assumes "lock q = None" "queue q = x # xs"
  shows "get t q = Some (Inr x, q\<lparr>queue := xs, not_full := notify (not_full q)\<rparr>)"
  using assms unfolding get_def
  apply (subst alone.simps, simp)
  apply (subst alone.simps, simp)
  apply (subst alone.simps, simp)
  done

lemma get_blocks:
  assumes "lock q = None" "queue q = []"
  shows "get t q = None"
  using assms unfolding get_def
  apply (subst alone.simps, simp)
  apply (subst alone.simps, simp)
  apply (subst alone.simps, simp)
  done

lemma qsize_returns:
  assumes "lock q = None"
  shows "qsize t q = Some (Inr (length (queue q)), q)"
  using assms unfolding qsize_def
  apply (subst alone.simps, simp)
  apply (subst alone.simps, simp)
  done

lemma put_all_returns:
  "lock q = None \<Longrightarrow> of_nat (length (queue q) + length items) \<le> maxsize q \<Longrightarrow>
   \<exists>q'. put_all t items q = Some q' \<and> queue q' = queue q @ items \<and> lock q' = None
      \<and> maxsize q' = maxsize q"
proof (induction items arbitrary: q)
  case Nil
  then show ?case by simp
next
  case (Cons x xs)
  let ?q1 = "q\<lparr>queue := queue q @ [x], not_empty := notify (not_empty q)\<rparr>"
  from Cons.prems have lt: "of_nat (length (queue q)) < maxsize q"
    by (simp add: of_nat_add) 
  have p: "put t x q = Some (Inr (), ?q1)"
    using put_returns[OF Cons.prems(1) lt] .
  have "\<exists>q'. put_all t xs ?q1 = Some q' \<and> queue q' = queue ?q1 @ xs \<and> lock q' = None
      \<and> maxsize q' = maxsize ?q1"
    using Cons.prems by (intro Cons.IH) (simp_all add: algebra_simps)
  then show ?case using p by auto
qed

lemma get_n_returns:
  "lock q = None \<Longrightarrow> n \<le> length (queue q) \<Longrightarrow>
   \<exists>q'. get_n t n q = Some (take n (queue q), q') \<and> queue q' = drop n (queue q)
      \<and> lock q' = None \<and> maxsize q' = maxsize q"
proof (induction n arbitrary: q)
  case 0
  then show ?case by simp
next
  case (Suc n)
  then obtain x xs where qx: "queue q = x # xs" by (cases "queue q") auto
  let ?q1 = "q\<lparr>queue := xs, not_full := notify (not_full q)\<rparr>"
  have g: "get t q = Some (Inr x, ?q1)"
    using get_returns[OF Suc.prems(1) qx] .
  have "\<exists>q'. get_n t n ?q1 = Some (take n (queue ?q1), q') \<and> queue q' = drop n (queue ?q1)
      \<and> lock q' = None \<and> maxsize q' = maxsize ?q1"
    using Suc.prems qx by (intro Suc.IH) simp_all
  then show ?case using g qx by auto
qed


section \<open>Construction\<close>

text \<open>
  Claim C5 (capacity validation).  For every capacity, constructing with a capacity of
  at most 0 fails with \<open>ValueError\<close> and yields no queue; constructing with a capacity
  above 0 succeeds and yields an empty queue, whose \<open>qsize\<close> is 0 and whose capacity is
  the given value.
\<close>

theorem capacity_validation:
  "(c \<le> 0 \<longrightarrow> (BoundedBlockingQueue c :: error + 'a bbq) = Inl ValueError) \<and>
   (0 < c \<longrightarrow> (\<exists>q :: 'a bbq. BoundedBlockingQueue c = Inr q \<and> queue q = [] \<and> maxsize q = c
                  \<and> qsize t q = Some (Inr 0, q)))"
  using qsize_returns[of "\<lparr>maxsize = c, queue = [], lock = None, not_empty = [], not_full = []\<rparr> :: 'a bbq" t]
  by (simp add: BoundedBlockingQueue_def)

theorem capacity_validation_witness:
  "(-1::rat) \<le> 0 \<and> (BoundedBlockingQueue (-1) :: error + nat bbq) = Inl ValueError \<and>
   (0::rat) < 3 \<and> (\<exists>q :: nat bbq. BoundedBlockingQueue 3 = Inr q \<and> queue q = [] \<and> maxsize q = 3
                  \<and> qsize 0 q = Some (Inr 0, q))"
  using capacity_validation[of "-1", where 'a = nat] capacity_validation[of 3 0, where 'a = nat]
  by simp

text \<open>
  Claim C6 as stated expects a positive capacity that is not an integer, such as 2.5, to be rejected.
  The constructor only compares the capacity with 0: the capacity 5/2 is accepted and
  stored.
\<close>

theorem noninteger_capacity_accepted:
  "(5/2 :: rat) \<notin> \<int> \<and> (0::rat) < 5/2 \<and>
   (BoundedBlockingQueue (5/2) :: error + nat bbq) =
     Inr \<lparr>maxsize = 5/2, queue = [], lock = None, not_empty = [], not_full = []\<rparr>"
proof -
  have "(5/2 :: rat) \<notin> \<int>"
  proof
    assume "(5/2 :: rat) \<in> \<int>"
    then obtain k :: int where "(5/2 :: rat) = of_int k" by (auto elim: Ints_cases)
    then have "(5::rat) = of_int (2 * k)" by simp
    then have "(5::int) = 2 * k" by (metis of_int_eq_iff of_int_numeral)
    then show False by presburger
  qed
  then show ?thesis by (simp add: BoundedBlockingQueue_def)
qed

text \<open>
  Claim C6, amended.  \<open>ValueError\<close> is raised at construction exactly when the capacity
  is at most 0, whether or not it is an integer.
\<close>

theorem ValueError_iff:
  "(BoundedBlockingQueue c :: error + 'a bbq) = Inl ValueError \<longleftrightarrow> c \<le> 0"
  by (simp add: BoundedBlockingQueue_def)

theorem ValueError_iff_witness:
  "((BoundedBlockingQueue 0 :: error + nat bbq) = Inl ValueError) \<and>
   ((BoundedBlockingQueue (1/3) :: error + nat bbq) \<noteq> Inl ValueError)"
  using ValueError_iff[of 0, where 'a = nat] ValueError_iff[of "1/3", where 'a = nat] by simp

text \<open>
  A capacity that is not an integer lets the buffer grow past it: a queue of capacity
  5/2 takes three items before \<open>put\<close> waits.
\<close>

lemma fractional_capacity_fills_to_ceiling:
  "\<exists>q q'. (BoundedBlockingQueue (5/2) :: error + nat bbq) = Inr q
      \<and> put_all 0 [1, 2, 3] q = Some q' \<and> length (queue q') = 3 \<and> put 0 4 q' = None"
  by (simp add: BoundedBlockingQueue_def put_returns put_blocks)

section \<open>The queue used by one thread\<close>

text \<open>
  Claim C3 (postcondition of \<open>put\<close>).  In every state of the queue with fewer items than
  the capacity, and the lock free, \<open>put\<close> returns, the new buffer is the old one with the
  item appended at the tail, \<open>qsize\<close> goes from the old length to the old length plus
  one, and the capacity is unchanged.
\<close>

theorem put_postcondition:
  assumes "lock q = None" and "of_nat (length (queue q)) < maxsize q"
  shows "\<exists>q'. put t item q = Some (Inr (), q') \<and> queue q' = queue q @ [item]
           \<and> maxsize q' = maxsize q
           \<and> qsize t q = Some (Inr (length (queue q)), q)
           \<and> qsize t q' = Some (Inr (length (queue q) + 1), q')"
  using put_returns[OF assms, of t item] qsize_returns[of q t] assms(1)
    qsize_returns[of "q\<lparr>queue := queue q @ [item], not_empty := notify (not_empty q)\<rparr>" t]
  by simp

theorem put_postcondition_witness:
  "lock \<lparr>maxsize = 2, queue = [5::nat], lock = None, not_empty = [], not_full = []\<rparr> = None \<and>
   of_nat (length (queue \<lparr>maxsize = 2, queue = [5::nat], lock = None, not_empty = [], not_full = []\<rparr>)) < 
     maxsize \<lparr>maxsize = 2, queue = [5::nat], lock = None, not_empty = [], not_full = []\<rparr> \<and>
   (\<exists>q'. put 0 7 \<lparr>maxsize = 2, queue = [5::nat], lock = None, not_empty = [], not_full = []\<rparr>
            = Some (Inr (), q') \<and> queue q' = [5, 7] \<and> maxsize q' = 2 \<and> qsize 0 q' = Some (Inr 2, q'))"
  using put_postcondition[of "\<lparr>maxsize = 2, queue = [5::nat], lock = None, not_empty = [], not_full = []\<rparr>" 0 7]
  by (auto simp: numeral_2_eq_2)

text \<open>
  Claim C4 (postcondition of \<open>get\<close>).  In every state of the queue with a non-empty
  buffer, and the lock free, \<open>get\<close> returns the head of the buffer, the new buffer is the
  old one without its head, and \<open>qsize\<close> goes down by exactly one.
\<close>

theorem get_postcondition:
  assumes "lock q = None" and "queue q = x # xs"
  shows "\<exists>q'. get t q = Some (Inr x, q') \<and> queue q' = xs
           \<and> maxsize q' = maxsize q
           \<and> qsize t q = Some (Inr (length xs + 1), q)
           \<and> qsize t q' = Some (Inr (length xs), q')"
  using get_returns[OF assms, of t] qsize_returns[of q t] assms
    qsize_returns[of "q\<lparr>queue := xs, not_full := notify (not_full q)\<rparr>" t]
  by simp

theorem get_postcondition_witness:
  "lock \<lparr>maxsize = 2, queue = [5::nat, 7], lock = None, not_empty = [], not_full = []\<rparr> = None \<and>
   queue \<lparr>maxsize = 2, queue = [5::nat, 7], lock = None, not_empty = [], not_full = []\<rparr> = 5 # [7] \<and>
   (\<exists>q'. get 0 \<lparr>maxsize = 2, queue = [5::nat, 7], lock = None, not_empty = [], not_full = []\<rparr>
            = Some (Inr 5, q') \<and> queue q' = [7] \<and> maxsize q' = 2 \<and> qsize 0 q' = Some (Inr 1, q'))"
  using get_postcondition[of "\<lparr>maxsize = 2, queue = [5::nat, 7], lock = None, not_empty = [], not_full = []\<rparr>" 5 "[7]" 0]
  by auto

text \<open>
  Claim C1 (FIFO law).  For every queue constructed with a capacity \<open>c > 0\<close> and every list
  of at most \<open>c\<close> items, putting the items in order and then calling \<open>get\<close> as many
  times returns exactly these items in the same order, and leaves the queue empty.
\<close>

theorem fifo_law:
  assumes "0 < c" and "of_nat (length items) \<le> c"
  shows "\<exists>q q1 q2. BoundedBlockingQueue c = Inr q \<and> put_all t items q = Some q1
           \<and> get_n t (length items) q1 = Some (items, q2) \<and> queue q2 = []"
proof -
  let ?q = "\<lparr>maxsize = c, queue = [], lock = None, not_empty = [], not_full = []\<rparr> :: 'a bbq"
  have c: "BoundedBlockingQueue c = Inr ?q"
    using assms(1) by (simp add: BoundedBlockingQueue_def)
  obtain q1 where q1: "put_all t items ?q = Some q1" "queue q1 = items" "lock q1 = None"
    using put_all_returns[of ?q items t] assms(2) by auto
  obtain q2 where "get_n t (length items) q1 = Some (take (length items) (queue q1), q2)"
      "queue q2 = drop (length items) (queue q1)"
    using get_n_returns[of q1 "length items" t] q1 by auto
  with c q1 show ?thesis by auto
qed


theorem fifo_law_witness:
  "(0::rat) < 3 \<and> of_nat (length [1, 2, 3 :: nat]) \<le> (3::rat) \<and>
   (\<exists>q q1 q2. BoundedBlockingQueue 3 = Inr q \<and> put_all 0 [1, 2, 3 :: nat] q = Some q1
           \<and> get_n 0 (length [1, 2, 3 :: nat]) q1 = Some ([1, 2, 3], q2) \<and> queue q2 = [])"
  using fifo_law[of 3 "[1, 2, 3 :: nat]" 0] by simp

section \<open>Steps of a thread\<close>

text \<open>Every move of a thread is one of the following, read off the step functions.\<close>

lemma thread_move_cases [consumes 1, case_names acquire acquire_qsize put_wait put_pass put_woken put_commit
    get_wait get_pass get_woken get_raise get_commit consume_wait consume_pass consume_woken consume_raise
    consume_stop consume_item qsize_commit acquire_consume]:
  assumes "thread_move t th q = Some (th', q')"
  obtains
    (acquire) c cs where "code th = Calls (c # cs)" "c \<noteq> QSize" "pc th = Acquire" "lock q = None"
        "th' = th\<lparr>pc := Test\<rparr>" "q' = q\<lparr>lock := Some t\<rparr>"
  | (acquire_qsize) cs where "code th = Calls (QSize # cs)" "pc th = Acquire" "lock q = None"
        "th' = th\<lparr>pc := Commit\<rparr>" "q' = q\<lparr>lock := Some t\<rparr>"
  | (put_wait) x cs where "code th = Calls (Put x # cs)" "pc th = Test"
        "of_nat (length (queue q)) \<ge> maxsize q"
        "th' = th\<lparr>pc := Waiting\<rparr>" "q' = q\<lparr>not_full := not_full q @ [t], lock := None\<rparr>"
  | (put_pass) x cs where "code th = Calls (Put x # cs)" "pc th = Test"
        "of_nat (length (queue q)) < maxsize q"
        "th' = th\<lparr>pc := Commit\<rparr>" "q' = q"
  | (put_woken) x cs where "code th = Calls (Put x # cs)" "pc th = Waiting" "t \<notin> set (not_full q)"
        "th' = th\<lparr>pc := Acquire\<rparr>" "q' = q"
  | (put_commit) x cs where "code th = Calls (Put x # cs)" "pc th = Commit"
        "th' = th\<lparr>code := Calls cs, pc := Acquire, replies := replies th @ [Unit]\<rparr>"
        "q' = q\<lparr>queue := queue q @ [x], not_empty := notify (not_empty q), lock := None\<rparr>"
  | (get_wait) cs where "code th = Calls (Get # cs)" "pc th = Test" "queue q = []"
        "th' = th\<lparr>pc := Waiting\<rparr>" "q' = q\<lparr>not_empty := not_empty q @ [t], lock := None\<rparr>"
  | (get_pass) cs where "code th = Calls (Get # cs)" "pc th = Test" "queue q \<noteq> []"
        "th' = th\<lparr>pc := Commit\<rparr>" "q' = q"
  | (get_woken) cs where "code th = Calls (Get # cs)" "pc th = Waiting" "t \<notin> set (not_empty q)"
        "th' = th\<lparr>pc := Acquire\<rparr>" "q' = q"
  | (get_raise) cs where "code th = Calls (Get # cs)" "pc th = Commit" "queue q = []"
        "th' = th\<lparr>code := Died IndexError\<rparr>" "q' = q\<lparr>lock := None\<rparr>"
  | (get_commit) cs x rest where "code th = Calls (Get # cs)" "pc th = Commit" "queue q = x # rest"
        "th' = th\<lparr>code := Calls cs, pc := Acquire, replies := replies th @ [Got x]\<rparr>"
        "q' = q\<lparr>queue := rest, not_full := notify (not_full q), lock := None\<rparr>"
  | (consume_wait) sentinel where "code th = Consume sentinel" "pc th = Test" "queue q = []"
        "th' = th\<lparr>pc := Waiting\<rparr>" "q' = q\<lparr>not_empty := not_empty q @ [t], lock := None\<rparr>"
  | (consume_pass) sentinel where "code th = Consume sentinel" "pc th = Test" "queue q \<noteq> []"
        "th' = th\<lparr>pc := Commit\<rparr>" "q' = q"
  | (consume_woken) sentinel where "code th = Consume sentinel" "pc th = Waiting" "t \<notin> set (not_empty q)"
        "th' = th\<lparr>pc := Acquire\<rparr>" "q' = q"
  | (consume_raise) sentinel where "code th = Consume sentinel" "pc th = Commit" "queue q = []"
        "th' = th\<lparr>code := Died IndexError\<rparr>" "q' = q\<lparr>lock := None\<rparr>"
  | (consume_stop) sentinel x rest where "code th = Consume sentinel" "pc th = Commit"
        "queue q = x # rest" "is_same x sentinel"
        "th' = th\<lparr>code := Calls [], pc := Acquire\<rparr>"
        "q' = q\<lparr>queue := rest, not_full := notify (not_full q), lock := None\<rparr>"
  | (consume_item) sentinel x rest where "code th = Consume sentinel" "pc th = Commit"
        "queue q = x # rest" "\<not> is_same x sentinel"
        "th' = th\<lparr>pc := Acquire, dest := dest th @ [x]\<rparr>"
        "q' = q\<lparr>queue := rest, not_full := notify (not_full q), lock := None\<rparr>"
  | (qsize_commit) cs where "code th = Calls (QSize # cs)" "pc th = Commit"
        "th' = th\<lparr>code := Calls cs, pc := Acquire, replies := replies th @ [Len (length (queue q))]\<rparr>"
        "q' = q\<lparr>lock := None\<rparr>"
  | (acquire_consume) sentinel where "code th = Consume sentinel" "pc th = Acquire" "lock q = None"
        "th' = th\<lparr>pc := Test\<rparr>" "q' = q\<lparr>lock := Some t\<rparr>"
proof (cases "code th")
  case (Calls cs0)
  show ?thesis
  proof (cases cs0)
    case Nil
    with Calls assms show ?thesis by (simp add: thread_move_def)
  next
    case (Cons c cs)
    show ?thesis
    proof (cases c)
      case (Put x)
      with Calls Cons assms show ?thesis
        by (cases "pc th")
           (auto simp: thread_move_def split: if_splits intro: acquire put_wait put_pass put_woken put_commit)
    next
      case Get
      with Calls Cons assms show ?thesis
        by (cases "pc th")
           (auto simp: thread_move_def split: if_splits list.splits
                 intro: acquire get_wait get_pass get_woken get_raise get_commit)
    next
      case QSize
      with Calls Cons assms show ?thesis
        by (cases "pc th")
           (auto simp: thread_move_def split: if_splits intro: acquire_qsize qsize_commit)
    qed
  qed
next
  case (Consume sentinel)
  with assms show ?thesis
    by (cases "pc th")
       (auto simp: thread_move_def split: if_splits list.splits
             intro: acquire_consume consume_wait consume_pass consume_woken consume_raise
                    consume_stop consume_item)
next
  case (Died e)
  with assms show ?thesis by (simp add: thread_move_def)
qed

lemma thread_stepE:
  assumes "thread_step t s = Some s'"
  obtains th' q' where "t < length (threads s)"
    "thread_move t (threads s ! t) (shared s) = Some (th', q')"
    "s' = \<lparr>shared = q', threads = (threads s)[t := th']\<rparr>"
  using assms by (auto simp: thread_step_def split: if_splits option.splits)

lemma mutex_others:
  assumes "mutex_inv s" "u < length (threads s)" "holds_lock (threads s ! u)"
    "t < length (threads s)" "t \<noteq> u"
  shows "\<not> holds_lock (threads s ! t)"
  using assms unfolding mutex_inv_def by (metis option.inject)

lemma mutex_step:
  assumes "mutex_inv s" "thread_step u s = Some s'"
  shows "mutex_inv s'"
proof -
  from assms(2) obtain th' q' where u: "u < length (threads s)"
    and mv: "thread_move u (threads s ! u) (shared s) = Some (th', q')"
    and s': "s' = \<lparr>shared = q', threads = (threads s)[u := th']\<rparr>"
    by (rule thread_stepE)
  have none: "lock (shared s) = None \<Longrightarrow> t < length (threads s) \<Longrightarrow> \<not> holds_lock (threads s ! t)" for t
    using assms(1) by (auto simp: mutex_inv_def)
  have mine: "holds_lock (threads s ! u) \<Longrightarrow> t < length (threads s) \<Longrightarrow> t \<noteq> u
      \<Longrightarrow> \<not> holds_lock (threads s ! t)" for t
    using mutex_others[OF assms(1) u] by blast
  have own: "holds_lock (threads s ! u) \<Longrightarrow> lock (shared s) = Some u"
    using assms(1) u by (auto simp: mutex_inv_def)
  show ?thesis
    unfolding mutex_inv_def s'
  proof (intro allI impI)
    fix t assume t: "t < length (threads \<lparr>shared = q', threads = (threads s)[u := th']\<rparr>)"
      and h: "holds_lock (threads \<lparr>shared = q', threads = (threads s)[u := th']\<rparr> ! t)"
    show "lock (shared \<lparr>shared = q', threads = (threads s)[u := th']\<rparr>) = Some t"
    proof (cases "t = u")
      case True
      with mv h u own show ?thesis
        by (cases rule: thread_move_cases) (auto simp: holds_lock_def next_call_def)
    next
      case False
      with t h have ht: "holds_lock (threads s ! t)" and tl: "t < length (threads s)" by auto
      then have l: "lock (shared s) = Some t" using assms(1) by (auto simp: mutex_inv_def)
      have nu: "\<not> holds_lock (threads s ! u)" using mine[OF _ tl False] ht by blast
      from mv l nu show ?thesis
        by (cases rule: thread_move_cases) (auto simp: holds_lock_def next_call_def)
    qed
  qed
qed

lemma rat_less_Suc_le: "rat_of_nat n < of_int c \<Longrightarrow> 1 + rat_of_nat n \<le> of_int c"
proof -
  assume "rat_of_nat n < of_int c"
  then have "(of_int (int n) :: rat) < of_int c" by simp
  then have "int n < c" by (simp only: of_int_less_iff)
  then have "int (Suc n) \<le> c" by simp
  then have "(of_int (int (Suc n)) :: rat) \<le> of_int c" by (simp only: of_int_le_iff)
  then show ?thesis by simp
qed

lemma ready_cong:
  "queue q' = queue q \<Longrightarrow> maxsize q' = maxsize q \<Longrightarrow> ready q' th = ready q th"
  by (simp only: ready_def)

lemma occupancy_step:
  assumes inv: "occupancy_inv c s" and st: "thread_step u s = Some s'"
  shows "occupancy_inv c s'"
proof -
  from st obtain th' q' where u: "u < length (threads s)"
    and mv: "thread_move u (threads s ! u) (shared s) = Some (th', q')"
    and s': "s' = \<lparr>shared = q', threads = (threads s)[u := th']\<rparr>"
    by (rule thread_stepE)
  from inv have mx: "maxsize (shared s) = of_int c" and mu: "mutex_inv s"
    and bd: "rat_of_nat (length (queue (shared s))) \<le> of_int c"
    and rd: "\<And>t. t < length (threads s) \<Longrightarrow> ready (shared s) (threads s ! t)"
    and sz: "\<And>t. t < length (threads s) \<Longrightarrow> sizes_ok (shared s) (threads s ! t)"
    and al: "\<And>t. t < length (threads s) \<Longrightarrow> \<not> died (threads s ! t)"
    by (auto simp: occupancy_inv_def)
  note ru = rd[OF u] and su = sz[OF u] and au = al[OF u]
  have m1: "maxsize q' = of_int c"
    using mv mx by (cases rule: thread_move_cases) auto
  have m2: "mutex_inv s'" using mutex_step[OF mu st] .
  have m3: "rat_of_nat (length (queue q')) \<le> of_int c"
    using mv bd ru mx
    by (cases rule: thread_move_cases) (auto simp: ready_def next_call_def rat_less_Suc_le)
  have same: "queue q' = queue (shared s) \<or> holds_lock (threads s ! u)"
    using mv by (cases rule: thread_move_cases) (auto simp: holds_lock_def next_call_def)
  have m4: "ready q' th'"
    using mv ru by (cases rule: thread_move_cases) (auto simp: ready_def next_call_def)
  have m5: "sizes_ok q' th'"
    using mv su bd mx m1 by (cases rule: thread_move_cases) (auto simp: sizes_ok_def)
  have m6: "\<not> died th'"
    using mv au ru by (cases rule: thread_move_cases) (auto simp: died_def ready_def next_call_def)
  have o4: "ready q' (threads s ! t)" if t: "t < length (threads s)" "t \<noteq> u" for t
  proof (cases "pc (threads s ! t) = Commit \<and> next_call (threads s ! t) \<noteq> None")
    case True
    then have "holds_lock (threads s ! t)" by (simp add: holds_lock_def)
    then have "\<not> holds_lock (threads s ! u)"
      using mutex_others[OF mu t(1) _ u] t(2) by blast
    with same have "queue q' = queue (shared s)" by blast
    then have "ready q' (threads s ! t) = ready (shared s) (threads s ! t)"
      using m1 mx by (intro ready_cong) simp_all
    with rd[OF t(1)] show ?thesis by blast
  next
    case False
    then show ?thesis by (auto simp: ready_def)
  qed
  have o5: "sizes_ok q' (threads s ! t)" if t: "t < length (threads s)" for t
    using sz[OF t] m1 mx by (simp add: sizes_ok_def)
  show ?thesis
    unfolding occupancy_inv_def s'
    using m1 m2 m3 m4 m5 m6 o4 o5 al s' u by (auto simp: nth_list_update)
qed

lemma occupancy_init:
  assumes "0 < c" "BoundedBlockingQueue (of_int c) = Inr q" "\<forall>th \<in> set ths. unstarted th"
  shows "occupancy_inv c \<lparr>shared = q, threads = ths\<rparr>"
proof -
  from assms(1,2) have q: "q = \<lparr>maxsize = of_int c, queue = [], lock = None, not_empty = [], not_full = []\<rparr>"
    by (simp add: BoundedBlockingQueue_def)
  have "unstarted (ths ! t)" if "t < length ths" for t
    using assms(3) that by simp
  then show ?thesis
    using assms(1) unfolding occupancy_inv_def q
    by (auto simp: mutex_inv_def holds_lock_def ready_def sizes_ok_def unstarted_def)
qed

lemma step_iff: "step s s' \<longleftrightarrow> (\<exists>t. thread_step t s = Some s')"
  by (auto simp: step_def elim: thread_stepE)

lemma step_reachable_induct:
  assumes "reachable s s'" "P s" "\<And>t a b. P a \<Longrightarrow> thread_step t a = Some b \<Longrightarrow> P b"
  shows "P s'"
  using assms(1) unfolding reachable_def
proof (induction rule: rtranclp_induct)
  case base
  then show ?case by (rule assms(2))
next
  case (step y z)
  then show ?case using assms(3) by (auto simp: step_iff)
qed

lemma occupancy_reachable:
  "occupancy_inv c s \<Longrightarrow> reachable s s' \<Longrightarrow> occupancy_inv c s'"
  by (rule step_reachable_induct[where P = "occupancy_inv c"]) (auto intro: occupancy_step)

lemma exec_reachable: "exec ts s = Some s' \<Longrightarrow> reachable s s'"
proof (induction ts arbitrary: s)
  case Nil
  then show ?case by (simp add: reachable_def)
next
  case (Cons t ts)
  then obtain s1 where s1: "thread_step t s = Some s1" "exec ts s1 = Some s'"
    by (auto split: option.splits)
  then have "step s s1" by (auto simp: step_iff)
  moreover have "step\<^sup>*\<^sup>* s1 s'" using Cons.IH[OF s1(2)] by (simp add: reachable_def)
  ultimately show ?case unfolding reachable_def by (rule converse_rtranclp_into_rtranclp)
qed

lemma rat_nat_le_int: "rat_of_nat n \<le> of_int c \<longleftrightarrow> int n \<le> c"
proof -
  have "rat_of_nat n = of_int (int n)" by simp
  then show ?thesis by (simp only: of_int_le_iff)
qed

lemma rat_nat_less_int: "rat_of_nat n < of_int c \<longleftrightarrow> int n < c"
proof -
  have "rat_of_nat n = of_int (int n)" by simp
  then show ?thesis by (simp only: of_int_less_iff)
qed

lemma full_no_growth:
  assumes inv: "occupancy_inv c s" and st: "thread_step u s = Some s'"
    and full: "int (length (queue (shared s))) = c"
  shows "length (queue (shared s')) \<le> length (queue (shared s))"
proof -
  from st obtain th' q' where u: "u < length (threads s)"
    and mv: "thread_move u (threads s ! u) (shared s) = Some (th', q')"
    and s': "s' = \<lparr>shared = q', threads = (threads s)[u := th']\<rparr>"
    by (rule thread_stepE)
  from inv u have ru: "ready (shared s) (threads s ! u)" and mx: "maxsize (shared s) = of_int c"
    by (auto simp: occupancy_inv_def)
  from mv ru mx full show ?thesis unfolding s'
    by (cases rule: thread_move_cases) (auto simp: ready_def next_call_def rat_nat_less_int)
qed

lemma put_waits_when_full:
  assumes "t < length (threads s)" "code (threads s ! t) = Calls (Put x # cs)"
    "pc (threads s ! t) = Test" "maxsize (shared s) \<le> of_nat (length (queue (shared s)))"
  shows "\<exists>s'. thread_step t s = Some s' \<and> pc (threads s' ! t) = Waiting
            \<and> code (threads s' ! t) = Calls (Put x # cs)
            \<and> queue (shared s') = queue (shared s)"
  using assms by (simp add: thread_step_def thread_move_def)

lemma get_waits_when_empty:
  assumes "t < length (threads s)"
    "code (threads s ! t) = Calls (Get # cs) \<or> code (threads s ! t) = Consume sentinel"
    "pc (threads s ! t) = Test" "queue (shared s) = []"
  shows "\<exists>s'. thread_step t s = Some s' \<and> pc (threads s' ! t) = Waiting
            \<and> code (threads s' ! t) = code (threads s ! t)
            \<and> queue (shared s') = []"
  using assms by (auto simp: thread_step_def thread_move_def)

text \<open>
  Claim C2 as stated covers every queue constructed with a capacity above 0.  The
  constructor accepts the capacity 5/2, which is not an integer; on that queue a thread
  that makes three \<open>put\<close> calls and one \<open>qsize\<close> call reaches a state in which the buffer
  holds three items, more than the capacity, and \<open>qsize\<close> has returned 3.
\<close>

theorem fractional_capacity_overfull:
  "(5/2 :: rat) \<notin> \<int> \<and> (0::rat) < 5/2
   \<and> BoundedBlockingQueue (5/2) =
       Inr (\<lparr>maxsize = 5/2, queue = [], lock = None, not_empty = [], not_full = []\<rparr>
            :: nat pyobj bbq)
   \<and> unstarted (caller [Put \<lparr>ident = 1, val = 10::nat\<rparr>, Put \<lparr>ident = 2, val = 20\<rparr>,
                         Put \<lparr>ident = 3, val = 30\<rparr>, QSize])
   \<and> reachable
        \<lparr>shared = \<lparr>maxsize = 5/2, queue = [], lock = None, not_empty = [], not_full = []\<rparr>,
         threads = [caller [Put \<lparr>ident = 1, val = 10::nat\<rparr>, Put \<lparr>ident = 2, val = 20\<rparr>,
                            Put \<lparr>ident = 3, val = 30\<rparr>, QSize]]\<rparr>
        \<lparr>shared = \<lparr>maxsize = 5/2,
                   queue = [\<lparr>ident = 1, val = 10\<rparr>, \<lparr>ident = 2, val = 20\<rparr>,
                            \<lparr>ident = 3, val = 30\<rparr>],
                   lock = None, not_empty = [], not_full = []\<rparr>,
         threads = [\<lparr>code = Calls [], pc = Acquire, dest = [],
                      replies = [Unit, Unit, Unit, Len 3]\<rparr>]\<rparr>
   \<and> \<not> rat_of_nat (length [\<lparr>ident = 1, val = 10::nat\<rparr>, \<lparr>ident = 2, val = 20\<rparr>,
                               \<lparr>ident = 3, val = 30\<rparr>]) \<le> 5/2
   \<and> \<not> rat_of_nat 3 \<le> 5/2"
proof -
  let ?q = "\<lparr>maxsize = 5/2, queue = [], lock = None, not_empty = [], not_full = []\<rparr>
            :: nat pyobj bbq"
  let ?th = "caller [Put \<lparr>ident = 1, val = 10::nat\<rparr>, Put \<lparr>ident = 2, val = 20\<rparr>,
                     Put \<lparr>ident = 3, val = 30\<rparr>, QSize]"
  let ?sX = "\<lparr>shared = \<lparr>maxsize = 5/2,
                   queue = [\<lparr>ident = 1, val = 10::nat\<rparr>, \<lparr>ident = 2, val = 20\<rparr>,
                            \<lparr>ident = 3, val = 30\<rparr>],
                   lock = None, not_empty = [], not_full = []\<rparr>,
         threads = [\<lparr>code = Calls [], pc = Acquire, dest = [],
                      replies = [Unit, Unit, Unit, Len 3]\<rparr>]\<rparr>"
  have i: "(5/2 :: rat) \<notin> \<int>"
  proof
    assume "(5/2 :: rat) \<in> \<int>"
    then obtain k :: int where "(5/2 :: rat) = of_int k" by (auto elim: Ints_cases)
    then have "(5::rat) = of_int (2 * k)" by simp
    then have "(5::int) = 2 * k" by (metis of_int_eq_iff of_int_numeral)
    then show False by presburger
  qed
  have p: "(0::rat) < 5/2" by simp
  have q: "BoundedBlockingQueue (5/2) = Inr ?q" by (simp add: BoundedBlockingQueue_def)
  have u: "unstarted ?th" by (simp add: unstarted_def caller_def died_def)
  have "exec [0, 0, 0, 0, 0, 0, 0, 0, 0, 0, 0] \<lparr>shared = ?q, threads = [?th]\<rparr> = Some ?sX"
    by (simp add: thread_step_def thread_move_def caller_def notify_def)
  then have r: "reachable \<lparr>shared = ?q, threads = [?th]\<rparr> ?sX" by (rule exec_reachable)
  have a: "\<not> rat_of_nat (length [\<lparr>ident = 1, val = 10::nat\<rparr>, \<lparr>ident = 2, val = 20\<rparr>,
                               \<lparr>ident = 3, val = 30\<rparr>]) \<le> 5/2" by simp
  have b: "\<not> rat_of_nat 3 \<le> 5/2" by simp
  show ?thesis by (intro conjI) (fact i p q u r a b)+
qed

text \<open>
  Claim C2, amended (bounded occupancy).  Take a queue constructed with an integer capacity
  \<open>c > 0\<close> and any threads that have not started, each running any sequence of
  \<open>put\<close>, \<open>get\<close> and \<open>qsize\<close> calls or a consumer loop.  In every reachable state the
  length of the buffer is between 0 and \<open>c\<close>; every value \<open>qsize\<close> has returned is
  between 0 and \<open>c\<close>; no thread has died, so \<^verbatim>\<open>popleft\<close> was never called on an empty
  deque; no step taken when the buffer holds \<open>c\<close> items makes it longer; a \<open>put\<close>
  that tests a full buffer waits and leaves the buffer as it is; and a \<open>get\<close> that
  tests an empty buffer waits and leaves it empty.
\<close>

theorem bounded_occupancy:
  assumes "0 < c" and "BoundedBlockingQueue (of_int c) = Inr q"
    and "\<forall>th \<in> set ths. unstarted th"
    and "reachable \<lparr>shared = q, threads = ths\<rparr> s"
  shows "0 \<le> int (length (queue (shared s))) \<and> int (length (queue (shared s))) \<le> c
    \<and> (\<forall>th \<in> set (threads s). \<forall>n. Len n \<in> set (replies th) \<longrightarrow> 0 \<le> int n \<and> int n \<le> c)
    \<and> (\<forall>th \<in> set (threads s). \<not> died th)
    \<and> (\<forall>t s'. thread_step t s = Some s' \<and> int (length (queue (shared s))) = c
          \<longrightarrow> length (queue (shared s')) \<le> length (queue (shared s)))
    \<and> (\<forall>t x cs. t < length (threads s) \<and> code (threads s ! t) = Calls (Put x # cs)
          \<and> pc (threads s ! t) = Test \<and> int (length (queue (shared s))) = c
          \<longrightarrow> (\<exists>s'. thread_step t s = Some s' \<and> pc (threads s' ! t) = Waiting
                \<and> code (threads s' ! t) = Calls (Put x # cs)
                \<and> queue (shared s') = queue (shared s)))
    \<and> (\<forall>t cs sentinel. t < length (threads s)
          \<and> (code (threads s ! t) = Calls (Get # cs) \<or> code (threads s ! t) = Consume sentinel)
          \<and> pc (threads s ! t) = Test \<and> queue (shared s) = []
          \<longrightarrow> (\<exists>s'. thread_step t s = Some s' \<and> pc (threads s' ! t) = Waiting
                \<and> code (threads s' ! t) = code (threads s ! t)
                \<and> queue (shared s') = []))"
proof -
  have inv: "occupancy_inv c s"
    using occupancy_reachable[OF occupancy_init[OF assms(1-3)] assms(4)] .
  then have mx: "maxsize (shared s) = of_int c" by (simp add: occupancy_inv_def)
  have a: "int (length (queue (shared s))) \<le> c"
    using inv by (simp add: occupancy_inv_def rat_nat_le_int)
  have per: "sizes_ok (shared s) th \<and> \<not> died th" if "th \<in> set (threads s)" for th
    using inv that by (auto simp: occupancy_inv_def in_set_conv_nth)
  have b: "\<forall>th \<in> set (threads s). \<forall>n. Len n \<in> set (replies th) \<longrightarrow> 0 \<le> int n \<and> int n \<le> c"
    using per mx by (auto simp: sizes_ok_def rat_nat_le_int)
  have d: "\<forall>t s'. thread_step t s = Some s' \<and> int (length (queue (shared s))) = c
          \<longrightarrow> length (queue (shared s')) \<le> length (queue (shared s))"
    using full_no_growth[OF inv] by blast
  have e: "\<forall>t x cs. t < length (threads s) \<and> code (threads s ! t) = Calls (Put x # cs)
          \<and> pc (threads s ! t) = Test \<and> int (length (queue (shared s))) = c
          \<longrightarrow> (\<exists>s'. thread_step t s = Some s' \<and> pc (threads s' ! t) = Waiting
                \<and> code (threads s' ! t) = Calls (Put x # cs)
                \<and> queue (shared s') = queue (shared s))"
  proof (intro allI impI, elim conjE)
    fix t x cs
    assume h: "t < length (threads s)" "code (threads s ! t) = Calls (Put x # cs)"
      "pc (threads s ! t) = Test" "int (length (queue (shared s))) = c"
    have "maxsize (shared s) \<le> of_nat (length (queue (shared s)))"
      using h(4) mx by (metis of_int_of_nat_eq order_refl)
    then show "\<exists>s'. thread_step t s = Some s' \<and> pc (threads s' ! t) = Waiting
                \<and> code (threads s' ! t) = Calls (Put x # cs)
                \<and> queue (shared s') = queue (shared s)"
      using put_waits_when_full[OF h(1-3)] by blast
  qed
  have f: "\<forall>t cs sentinel. t < length (threads s)
          \<and> (code (threads s ! t) = Calls (Get # cs) \<or> code (threads s ! t) = Consume sentinel)
          \<and> pc (threads s ! t) = Test \<and> queue (shared s) = []
          \<longrightarrow> (\<exists>s'. thread_step t s = Some s' \<and> pc (threads s' ! t) = Waiting
                \<and> code (threads s' ! t) = code (threads s ! t)
                \<and> queue (shared s') = [])"
    using get_waits_when_empty by blast
  from a b per d e f show ?thesis by simp
qed

theorem bounded_occupancy_witness:
  "(0::int) < 1
   \<and> BoundedBlockingQueue (of_int 1) =
       Inr (\<lparr>maxsize = 1, queue = [], lock = None, not_empty = [], not_full = []\<rparr>
            :: nat pyobj bbq)
   \<and> unstarted (caller [Put \<lparr>ident = 1, val = 10::nat\<rparr>, Put \<lparr>ident = 2, val = 20\<rparr>])
   \<and> unstarted (caller [QSize, Get, Get] :: nat thread)
   \<and> reachable
        \<lparr>shared = \<lparr>maxsize = 1, queue = [], lock = None, not_empty = [], not_full = []\<rparr>,
         threads = [caller [Put \<lparr>ident = 1, val = 10::nat\<rparr>, Put \<lparr>ident = 2, val = 20\<rparr>],
                    caller [QSize, Get, Get]]\<rparr>
        \<lparr>shared = \<lparr>maxsize = 1, queue = [\<lparr>ident = 1, val = 10\<rparr>], lock = Some 0,
                   not_empty = [], not_full = []\<rparr>,
         threads = [\<lparr>code = Calls [Put \<lparr>ident = 2, val = 20\<rparr>], pc = Test, dest = [],
                      replies = [Unit]\<rparr>,
                    \<lparr>code = Calls [Get, Get], pc = Acquire, dest = [], replies = [Len 1]\<rparr>]\<rparr>
   \<and> (\<exists>s'. thread_step 0
          \<lparr>shared = \<lparr>maxsize = 1, queue = [\<lparr>ident = 1, val = 10::nat\<rparr>], lock = Some 0,
                   not_empty = [], not_full = []\<rparr>,
           threads = [\<lparr>code = Calls [Put \<lparr>ident = 2, val = 20\<rparr>], pc = Test, dest = [],
                      replies = [Unit]\<rparr>,
                    \<lparr>code = Calls [Get, Get], pc = Acquire, dest = [], replies = [Len 1]\<rparr>]\<rparr>
          = Some s' \<and> pc (threads s' ! 0) = Waiting
          \<and> queue (shared s') = [\<lparr>ident = 1, val = 10\<rparr>])
   \<and> reachable
        \<lparr>shared = \<lparr>maxsize = 1, queue = [], lock = None, not_empty = [], not_full = []\<rparr>,
         threads = [caller [Put \<lparr>ident = 1, val = 10::nat\<rparr>, Put \<lparr>ident = 2, val = 20\<rparr>],
                    caller [QSize, Get, Get]]\<rparr>
        \<lparr>shared = \<lparr>maxsize = 1, queue = [], lock = Some 1, not_empty = [], not_full = []\<rparr>,
         threads = [caller [Put \<lparr>ident = 1, val = 10::nat\<rparr>, Put \<lparr>ident = 2, val = 20\<rparr>],
                    \<lparr>code = Calls [Get, Get], pc = Test, dest = [], replies = [Len 0]\<rparr>]\<rparr>
   \<and> (\<exists>s'. thread_step 1
          \<lparr>shared = \<lparr>maxsize = 1, queue = [], lock = Some 1, not_empty = [], not_full = []\<rparr>,
           threads = [caller [Put \<lparr>ident = 1, val = 10::nat\<rparr>, Put \<lparr>ident = 2, val = 20\<rparr>],
                    \<lparr>code = Calls [Get, Get], pc = Test, dest = [], replies = [Len 0]\<rparr>]\<rparr>
          = Some s' \<and> pc (threads s' ! 1) = Waiting \<and> queue (shared s') = [])"
proof -
  let ?q = "\<lparr>maxsize = 1, queue = [], lock = None, not_empty = [], not_full = []\<rparr> :: nat pyobj bbq"
  let ?ths = "[caller [Put \<lparr>ident = 1, val = 10::nat\<rparr>, Put \<lparr>ident = 2, val = 20\<rparr>],
               caller [QSize, Get, Get]]"
  let ?sA = "\<lparr>shared = \<lparr>maxsize = 1, queue = [\<lparr>ident = 1, val = 10::nat\<rparr>], lock = Some 0,
                   not_empty = [], not_full = []\<rparr>,
         threads = [\<lparr>code = Calls [Put \<lparr>ident = 2, val = 20\<rparr>], pc = Test, dest = [],
                      replies = [Unit]\<rparr>,
                    \<lparr>code = Calls [Get, Get], pc = Acquire, dest = [], replies = [Len 1]\<rparr>]\<rparr>"
  let ?sB = "\<lparr>shared = \<lparr>maxsize = 1, queue = [], lock = Some 1, not_empty = [], not_full = []\<rparr>,
         threads = [caller [Put \<lparr>ident = 1, val = 10::nat\<rparr>, Put \<lparr>ident = 2, val = 20\<rparr>],
                    \<lparr>code = Calls [Get, Get], pc = Test, dest = [], replies = [Len 0]\<rparr>]\<rparr>"
  have c: "(0::int) < 1" by simp
  have q: "BoundedBlockingQueue (of_int 1) = Inr ?q" by (simp add: BoundedBlockingQueue_def)
  have u: "\<forall>th \<in> set ?ths. unstarted th" by (simp add: unstarted_def caller_def died_def)
  have "exec [0, 0, 0, 1, 1, 0] \<lparr>shared = ?q, threads = ?ths\<rparr> = Some ?sA"
    by (simp add: thread_step_def thread_move_def caller_def notify_def)
  then have rA: "reachable \<lparr>shared = ?q, threads = ?ths\<rparr> ?sA" by (rule exec_reachable)
  have "exec [1, 1, 1] \<lparr>shared = ?q, threads = ?ths\<rparr> = Some ?sB"
    by (simp add: thread_step_def thread_move_def caller_def notify_def)
  then have rB: "reachable \<lparr>shared = ?q, threads = ?ths\<rparr> ?sB" by (rule exec_reachable)
  have wA: "\<exists>s'. thread_step 0 ?sA = Some s' \<and> pc (threads s' ! 0) = Waiting
          \<and> queue (shared s') = [\<lparr>ident = 1, val = 10\<rparr>]"
    using bounded_occupancy[OF c q u rA, THEN conjunct2, THEN conjunct2, THEN conjunct2,
        THEN conjunct2, THEN conjunct2, THEN conjunct1, rule_format,
        of 0 "\<lparr>ident = 2, val = 20\<rparr>" "[]"]
    by auto
  have wB: "\<exists>s'. thread_step 1 ?sB = Some s' \<and> pc (threads s' ! 1) = Waiting
          \<and> queue (shared s') = []"
    using bounded_occupancy[OF c q u rB, THEN conjunct2, THEN conjunct2, THEN conjunct2,
        THEN conjunct2, THEN conjunct2, THEN conjunct2, rule_format, of 1 "[Get]"]
    by auto
  have u1: "unstarted (caller [Put \<lparr>ident = 1, val = 10::nat\<rparr>, Put \<lparr>ident = 2, val = 20\<rparr>])"
    and u2: "unstarted (caller [QSize, Get, Get] :: nat thread)"
    using u by simp_all
  show ?thesis by (intro conjI) (fact c q u1 u2 rA rB wA wB)+
qed

section \<open>A thread run alone\<close>

lemma run_alone_done:
  "t < length (threads s) \<Longrightarrow> finished (threads s ! t) \<Longrightarrow> run_alone t s = Some s"
  by (subst run_alone.simps) simp

lemma run_alone_step:
  assumes "thread_step t s = Some s'" "\<not> finished (threads s ! t)" "\<not> died (threads s ! t)"
  shows "run_alone t s = run_alone t s'"
  using assms by (subst run_alone.simps) simp

lemma put_alone_in_thread:
  assumes t: "t < length (threads s)" and th: "threads s ! t = th"
    and c: "code th = Calls (Put x # cs)" and p: "pc th = Acquire"
    and l: "lock (shared s) = None"
    and room: "of_nat (length (queue (shared s))) < maxsize (shared s)"
  shows "run_alone t s =
         run_alone t \<lparr>shared = (shared s)\<lparr>queue := queue (shared s) @ [x],
                                          not_empty := notify (not_empty (shared s))\<rparr>,
                      threads = (threads s)[t := th\<lparr>code := Calls cs, pc := Acquire,
                                                    replies := replies th @ [Unit]\<rparr>]\<rparr>"
proof -
  let ?s1 = "\<lparr>shared = (shared s)\<lparr>lock := Some t\<rparr>, threads = (threads s)[t := th\<lparr>pc := Test\<rparr>]\<rparr>"
  let ?s2 = "\<lparr>shared = (shared s)\<lparr>lock := Some t\<rparr>, threads = (threads s)[t := th\<lparr>pc := Commit\<rparr>]\<rparr>"
  let ?s3 = "\<lparr>shared = (shared s)\<lparr>queue := queue (shared s) @ [x],
                                          not_empty := notify (not_empty (shared s))\<rparr>,
                      threads = (threads s)[t := th\<lparr>code := Calls cs, pc := Acquire,
                                                    replies := replies th @ [Unit]\<rparr>]\<rparr>"
  have 1: "thread_step t s = Some ?s1"
    using t th c p l by (simp add: thread_step_def thread_move_def)
  have 2: "thread_step t ?s1 = Some ?s2"
    using t th c p l room by (simp add: thread_step_def thread_move_def)
  have 3: "thread_step t ?s2 = Some ?s3"
    using t th c p l room by (simp add: thread_step_def thread_move_def)
  have n: "\<not> finished (threads s ! t)" "\<not> died (threads s ! t)"
     "\<not> finished (threads ?s1 ! t)" "\<not> died (threads ?s1 ! t)"
     "\<not> finished (threads ?s2 ! t)" "\<not> died (threads ?s2 ! t)"
    using t th c by (simp_all add: finished_def died_def)
  show ?thesis
    using run_alone_step[OF 1 n(1,2)] run_alone_step[OF 2 n(3,4)] run_alone_step[OF 3 n(5,6)]
    by simp
qed

lemma get_alone_in_consumer:
  assumes t: "t < length (threads s)" and th: "threads s ! t = th"
    and c: "code th = Consume sentinel" and p: "pc th = Acquire"
    and l: "lock (shared s) = None"
    and q: "queue (shared s) = x # rest"
  shows "run_alone t s =
         run_alone t \<lparr>shared = (shared s)\<lparr>queue := rest,
                                          not_full := notify (not_full (shared s))\<rparr>,
                      threads = (threads s)[t :=
                        (if is_same x sentinel then th\<lparr>code := Calls [], pc := Acquire\<rparr>
                         else th\<lparr>pc := Acquire, dest := dest th @ [x]\<rparr>)]\<rparr>"
proof -
  let ?s1 = "\<lparr>shared = (shared s)\<lparr>lock := Some t\<rparr>, threads = (threads s)[t := th\<lparr>pc := Test\<rparr>]\<rparr>"
  let ?s2 = "\<lparr>shared = (shared s)\<lparr>lock := Some t\<rparr>, threads = (threads s)[t := th\<lparr>pc := Commit\<rparr>]\<rparr>"
  let ?s3 = "\<lparr>shared = (shared s)\<lparr>queue := rest,
                                          not_full := notify (not_full (shared s))\<rparr>,
                      threads = (threads s)[t :=
                        (if is_same x sentinel then th\<lparr>code := Calls [], pc := Acquire\<rparr>
                         else th\<lparr>pc := Acquire, dest := dest th @ [x]\<rparr>)]\<rparr>"
  have 1: "thread_step t s = Some ?s1"
    using t th c p l by (simp add: thread_step_def thread_move_def)
  have 2: "thread_step t ?s1 = Some ?s2"
    using t th c p l q by (simp add: thread_step_def thread_move_def)
  have 3: "thread_step t ?s2 = Some ?s3"
    using t th c p l q by (simp add: thread_step_def thread_move_def)
  have n: "\<not> finished (threads s ! t)" "\<not> died (threads s ! t)"
     "\<not> finished (threads ?s1 ! t)" "\<not> died (threads ?s1 ! t)"
     "\<not> finished (threads ?s2 ! t)" "\<not> died (threads ?s2 ! t)"
    using t th c by (simp_all add: finished_def died_def)
  show ?thesis
    using run_alone_step[OF 1 n(1,2)] run_alone_step[OF 2 n(3,4)] run_alone_step[OF 3 n(5,6)]
    by simp
qed

lemma producer_alone:
  assumes "t < length (threads s)" "code (threads s ! t) = Calls (map Put items)"
    "pc (threads s ! t) = Acquire" "lock (shared s) = None"
    "of_nat (length (queue (shared s)) + length items) \<le> maxsize (shared s)"
  shows "\<exists>s'. run_alone t s = Some s' \<and> queue (shared s') = queue (shared s) @ items
           \<and> finished (threads s' ! t)
           \<and> replies (threads s' ! t) = replies (threads s ! t) @ replicate (length items) Unit
           \<and> lock (shared s') = None \<and> maxsize (shared s') = maxsize (shared s)
           \<and> length (threads s') = length (threads s)"
  using assms
proof (induction items arbitrary: s)
  case Nil
  then show ?case using run_alone_done[of t s] by (simp add: finished_def)
next
  case (Cons x xs)
  let ?th = "threads s ! t"
  let ?s3 = "\<lparr>shared = (shared s)\<lparr>queue := queue (shared s) @ [x],
                                   not_empty := notify (not_empty (shared s))\<rparr>,
              threads = (threads s)[t := ?th\<lparr>code := Calls (map Put xs), pc := Acquire,
                                             replies := replies ?th @ [Unit]\<rparr>]\<rparr>"
  have room: "of_nat (length (queue (shared s))) < maxsize (shared s)"
    using Cons.prems(5) by simp
  have r: "run_alone t s = run_alone t ?s3"
    using put_alone_in_thread[OF Cons.prems(1) refl _ Cons.prems(3,4) room, of x "map Put xs"]
      Cons.prems(2) by simp
  have "\<exists>s'. run_alone t ?s3 = Some s' \<and> queue (shared s') = queue (shared ?s3) @ xs
           \<and> finished (threads s' ! t)
           \<and> replies (threads s' ! t) = replies (threads ?s3 ! t) @ replicate (length xs) Unit
           \<and> lock (shared s') = None \<and> maxsize (shared s') = maxsize (shared ?s3)
           \<and> length (threads s') = length (threads ?s3)"
    using Cons.prems by (intro Cons.IH) (simp_all add: algebra_simps)
  then show ?case using r Cons.prems(1) by (auto simp: replicate_append_same)
qed

lemma consumer_alone:
  assumes "t < length (threads s)" "code (threads s ! t) = Consume sentinel"
    "pc (threads s ! t) = Acquire" "lock (shared s) = None"
    "queue (shared s) = items @ sentinel' # rest"
    "\<forall>x \<in> set items. \<not> is_same x sentinel" "is_same sentinel' sentinel"
  shows "\<exists>s'. run_alone t s = Some s' \<and> queue (shared s') = rest
           \<and> finished (threads s' ! t)
           \<and> dest (threads s' ! t) = dest (threads s ! t) @ items
           \<and> lock (shared s') = None \<and> maxsize (shared s') = maxsize (shared s)
           \<and> length (threads s') = length (threads s)"
  using assms
proof (induction items arbitrary: s)
  case Nil
  let ?th = "threads s ! t"
  let ?s3 = "\<lparr>shared = (shared s)\<lparr>queue := rest, not_full := notify (not_full (shared s))\<rparr>,
              threads = (threads s)[t := ?th\<lparr>code := Calls [], pc := Acquire\<rparr>]\<rparr>"
  have r: "run_alone t s = run_alone t ?s3"
    using get_alone_in_consumer[OF Nil.prems(1) refl Nil.prems(2,3,4), of sentinel' rest]
      Nil.prems(5,7) by simp
  have "run_alone t ?s3 = Some ?s3"
    using Nil.prems(1) by (intro run_alone_done) (simp_all add: finished_def)
  then show ?case using r Nil.prems by (simp add: finished_def)
next
  case (Cons x xs)
  let ?th = "threads s ! t"
  let ?s3 = "\<lparr>shared = (shared s)\<lparr>queue := xs @ sentinel' # rest,
                                   not_full := notify (not_full (shared s))\<rparr>,
              threads = (threads s)[t := ?th\<lparr>pc := Acquire, dest := dest ?th @ [x]\<rparr>]\<rparr>"
  have r: "run_alone t s = run_alone t ?s3"
    using get_alone_in_consumer[OF Cons.prems(1) refl Cons.prems(2,3,4), of x "xs @ sentinel' # rest"]
      Cons.prems(5,6) by simp
  have "\<exists>s'. run_alone t ?s3 = Some s' \<and> queue (shared s') = rest
           \<and> finished (threads s' ! t)
           \<and> dest (threads s' ! t) = dest (threads ?s3 ! t) @ xs
           \<and> lock (shared s') = None \<and> maxsize (shared s') = maxsize (shared ?s3)
           \<and> length (threads s') = length (threads ?s3)"
    using Cons.prems by (intro Cons.IH) simp_all
  then show ?case using r Cons.prems(1) by auto
qed

text \<open>
  Claim C8 (producer contract).  For every finite source, the code of the producer is
  one \<open>put\<close> per item of the source, in source order, followed by one \<open>put\<close> of the
  sentinel; run against an empty queue of capacity at least the length of the source
  plus one, it finishes after that many calls have returned and leaves the buffer equal
  to the source followed by the sentinel.
\<close>

theorem producer_contract:
  assumes "BoundedBlockingQueue c = Inr q" and "of_nat (length source + 1) \<le> c"
    and "t < length ths" and "ths ! t = Producer source sentinel"
  shows "code (Producer source sentinel) = Calls (map Put source @ [Put sentinel])
         \<and> (\<exists>s'. run_alone t \<lparr>shared = q, threads = ths\<rparr> = Some s'
               \<and> queue (shared s') = source @ [sentinel]
               \<and> finished (threads s' ! t)
               \<and> replies (threads s' ! t) = replicate (length source + 1) Unit)"
proof -
  from assms(1) have q: "q = \<lparr>maxsize = c, queue = [], lock = None, not_empty = [], not_full = []\<rparr>"
    by (auto simp: BoundedBlockingQueue_def split: if_splits)
  let ?s = "\<lparr>shared = q, threads = ths\<rparr>"
  have h: "t < length (threads ?s)"
    "code (threads ?s ! t) = Calls (map Put (source @ [sentinel]))"
    "pc (threads ?s ! t) = Acquire" "lock (shared ?s) = None"
    "of_nat (length (queue (shared ?s)) + length (source @ [sentinel])) \<le> maxsize (shared ?s)"
    using assms(2,3,4) by (simp_all add: q Producer_def)
  have r: "replies (threads ?s ! t) = []" using assms(4) by (simp add: Producer_def)
  from producer_alone[OF h] r q show ?thesis by (auto simp: Producer_def)
qed

theorem producer_contract_witness:
  "BoundedBlockingQueue 10 =
     Inr \<lparr>maxsize = 10, queue = [] :: string pyobj list, lock = None, not_empty = [], not_full = []\<rparr>
   \<and> of_nat (length [\<lparr>ident = 1, val = ''a''\<rparr>, \<lparr>ident = 2, val = ''b''\<rparr>, \<lparr>ident = 3, val = ''c''\<rparr>] + 1)
       \<le> (10 :: rat)
   \<and> (0::nat) < length [Producer [\<lparr>ident = 1, val = ''a''\<rparr>, \<lparr>ident = 2, val = ''b''\<rparr>,
                                  \<lparr>ident = 3, val = ''c''\<rparr>] \<lparr>ident = 0, val = ''''\<rparr>]
   \<and> (\<exists>s'. run_alone 0
          \<lparr>shared = \<lparr>maxsize = 10, queue = [], lock = None, not_empty = [], not_full = []\<rparr>,
           threads = [Producer [\<lparr>ident = 1, val = ''a''\<rparr>, \<lparr>ident = 2, val = ''b''\<rparr>,
                                \<lparr>ident = 3, val = ''c''\<rparr>] \<lparr>ident = 0, val = ''''\<rparr>]\<rparr> = Some s'
        \<and> queue (shared s') = [\<lparr>ident = 1, val = ''a''\<rparr>, \<lparr>ident = 2, val = ''b''\<rparr>,
                                \<lparr>ident = 3, val = ''c''\<rparr>] @ [\<lparr>ident = 0, val = ''''\<rparr>]
        \<and> finished (threads s' ! 0)
        \<and> replies (threads s' ! 0) = replicate (length [\<lparr>ident = 1, val = ''a''\<rparr>,
              \<lparr>ident = 2, val = ''b''\<rparr>, \<lparr>ident = 3, val = ''c''\<rparr>] + 1) Unit)"
proof -
  let ?q = "\<lparr>maxsize = 10, queue = [] :: string pyobj list, lock = None, not_empty = [], not_full = []\<rparr>"
  let ?src = "[\<lparr>ident = 1, val = ''a''\<rparr>, \<lparr>ident = 2, val = ''b''\<rparr>, \<lparr>ident = 3, val = ''c''\<rparr>]"
  let ?S = "\<lparr>ident = 0, val = ''''\<rparr>"
  have a: "BoundedBlockingQueue 10 = Inr ?q" by (simp add: BoundedBlockingQueue_def)
  have b: "of_nat (length ?src + 1) \<le> (10 :: rat)" by simp
  have c: "(0::nat) < length [Producer ?src ?S]" by simp
  have d: "[Producer ?src ?S] ! 0 = Producer ?src ?S" by simp
  from producer_contract[OF a b c d, THEN conjunct2] a b c show ?thesis by (intro conjI)
qed

text \<open>A consumer only ever appends objects that are not its sentinel.\<close>

lemma clean_dest_move:
  assumes "thread_move t th q = Some (th', q')" "clean_dest sentinel th"
  shows "clean_dest sentinel th'"
  using assms
  by (cases rule: thread_move_cases) (auto simp: clean_dest_def finished_def died_def)

lemma clean_dest_step:
  assumes "t < length (threads s) \<and> clean_dest sentinel (threads s ! t)"
    and "thread_step u s = Some s'"
  shows "t < length (threads s') \<and> clean_dest sentinel (threads s' ! t)"
proof -
  from assms(2) obtain th' q' where u: "u < length (threads s)"
    and mv: "thread_move u (threads s ! u) (shared s) = Some (th', q')"
    and s': "s' = \<lparr>shared = q', threads = (threads s)[u := th']\<rparr>"
    by (rule thread_stepE)
  show ?thesis
  proof (cases "u = t")
    case True
    with mv assms(1) have "clean_dest sentinel th'" using clean_dest_move by blast
    with True u show ?thesis by (simp add: s')
  next
    case False
    with assms(1) show ?thesis by (simp add: s')
  qed
qed

lemma clean_dest_reachable:
  assumes "reachable s s'" "t < length (threads s)" "clean_dest sentinel (threads s ! t)"
  shows "clean_dest sentinel (threads s' ! t)"
proof -
  have "t < length (threads s') \<and> clean_dest sentinel (threads s' ! t)"
  proof (rule step_reachable_induct[OF assms(1),
        where P = "\<lambda>s. t < length (threads s) \<and> clean_dest sentinel (threads s ! t)"])
    show "t < length (threads s) \<and> clean_dest sentinel (threads s ! t)" using assms(2,3) by simp
  next
    fix u a b
    assume "t < length (threads a) \<and> clean_dest sentinel (threads a ! t)" "thread_step u a = Some b"
    then show "t < length (threads b) \<and> clean_dest sentinel (threads b ! t)"
      by (rule clean_dest_step)
  qed
  then show ?thesis by simp
qed

text \<open>
  Claim C7 (sentinel termination).  For every list of items none of which is the
  sentinel, a consumer with an empty destination, run against a queue that holds these
  items followed by the sentinel, terminates; its destination is then exactly these items
  in order and the queue is empty.  In no state the system can reach, whatever the
  other threads do, does the destination hold the sentinel.
\<close>

theorem sentinel_termination:
  assumes "t < length (threads s)" and "threads s ! t = Consumer [] sentinel"
    and "lock (shared s) = None" and "queue (shared s) = items @ [sentinel]"
    and "\<forall>x \<in> set items. \<not> is_same x sentinel"
  shows "(\<exists>s'. run_alone t s = Some s' \<and> finished (threads s' ! t)
            \<and> dest (threads s' ! t) = items \<and> queue (shared s') = [])
         \<and> (\<forall>s'. reachable s s' \<longrightarrow> (\<forall>x \<in> set (dest (threads s' ! t)). \<not> is_same x sentinel))"
proof -
  have c: "code (threads s ! t) = Consume sentinel" "pc (threads s ! t) = Acquire"
    "dest (threads s ! t) = []"
    using assms(2) by (simp_all add: Consumer_def)
  have "is_same sentinel sentinel" by (simp add: is_same_def)
  from consumer_alone[OF assms(1) c(1,2) assms(3,4,5) this] c(3)
  have a: "\<exists>s'. run_alone t s = Some s' \<and> finished (threads s' ! t)
            \<and> dest (threads s' ! t) = items \<and> queue (shared s') = []"
    by auto
  have "clean_dest sentinel (threads s ! t)" using c by (simp add: clean_dest_def)
  then have "\<forall>s'. reachable s s' \<longrightarrow> (\<forall>x \<in> set (dest (threads s' ! t)). \<not> is_same x sentinel)"
    using clean_dest_reachable[OF _ assms(1), of _ sentinel] by (simp add: clean_dest_def)
  with a show ?thesis by blast
qed

theorem sentinel_termination_witness:
  "0 < length (threads \<lparr>shared = \<lparr>maxsize = 10,
         queue = [\<lparr>ident = 1, val = 1::int\<rparr>, \<lparr>ident = 2, val = 2\<rparr>] @ [\<lparr>ident = 0, val = 0\<rparr>],
         lock = None, not_empty = [], not_full = []\<rparr>,
       threads = [Consumer [] \<lparr>ident = 0, val = 0\<rparr>]\<rparr>)
   \<and> \<not> is_same \<lparr>ident = 1, val = 1::int\<rparr> \<lparr>ident = 0, val = 0\<rparr>
   \<and> \<not> is_same \<lparr>ident = 2, val = 2::int\<rparr> \<lparr>ident = 0, val = 0\<rparr>
   \<and> (\<exists>s'. run_alone 0 \<lparr>shared = \<lparr>maxsize = 10,
         queue = [\<lparr>ident = 1, val = 1::int\<rparr>, \<lparr>ident = 2, val = 2\<rparr>] @ [\<lparr>ident = 0, val = 0\<rparr>],
         lock = None, not_empty = [], not_full = []\<rparr>,
       threads = [Consumer [] \<lparr>ident = 0, val = 0\<rparr>]\<rparr> = Some s'
       \<and> finished (threads s' ! 0)
       \<and> dest (threads s' ! 0) = [\<lparr>ident = 1, val = 1\<rparr>, \<lparr>ident = 2, val = 2\<rparr>]
       \<and> queue (shared s') = [])"
proof -
  let ?S = "\<lparr>ident = 0, val = 0::int\<rparr>"
  let ?items = "[\<lparr>ident = 1, val = 1::int\<rparr>, \<lparr>ident = 2, val = 2\<rparr>]"
  let ?s = "\<lparr>shared = \<lparr>maxsize = 10, queue = ?items @ [?S],
         lock = None, not_empty = [], not_full = []\<rparr>,
       threads = [Consumer [] ?S]\<rparr>"
  have h: "0 < length (threads ?s)" "threads ?s ! 0 = Consumer [] ?S" "lock (shared ?s) = None"
    "queue (shared ?s) = ?items @ [?S]" by simp_all
  have n: "\<not> is_same \<lparr>ident = 1, val = 1::int\<rparr> ?S" "\<not> is_same \<lparr>ident = 2, val = 2::int\<rparr> ?S"
    by (simp_all add: is_same_def)
  then have n': "\<forall>x \<in> set ?items. \<not> is_same x ?S" by simp
  from sentinel_termination[OF h n', THEN conjunct1] h(1) n show ?thesis by (intro conjI)
qed



section \<open>The producer and the consumer together\<close>

lemma last_is_sentinel:
  "xs @ x # ys = zs @ [s] \<Longrightarrow> x \<notin> set zs \<Longrightarrow> xs = zs \<and> ys = [] \<and> x = s"
  by (auto simp: append_eq_append_conv2 Cons_eq_append_conv append_eq_Cons_conv)

lemma producer_move_cases [consumes 2, case_names acquire wait pass woken commit]:
  assumes "thread_move t P q = Some (P', q')" "code P = Calls (map Put rest)"
  obtains
    (acquire) "rest \<noteq> []" "pc P = Acquire" "lock q = None"
        "P' = P\<lparr>pc := Test\<rparr>" "q' = q\<lparr>lock := Some t\<rparr>"
  | (wait) "rest \<noteq> []" "pc P = Test" "of_nat (length (queue q)) \<ge> maxsize q"
        "P' = P\<lparr>pc := Waiting\<rparr>" "q' = q\<lparr>not_full := not_full q @ [t], lock := None\<rparr>"
  | (pass) "rest \<noteq> []" "pc P = Test" "of_nat (length (queue q)) < maxsize q"
        "P' = P\<lparr>pc := Commit\<rparr>" "q' = q"
  | (woken) "rest \<noteq> []" "pc P = Waiting" "t \<notin> set (not_full q)"
        "P' = P\<lparr>pc := Acquire\<rparr>" "q' = q"
  | (commit) x rest' where "rest = x # rest'" "pc P = Commit"
        "P' = P\<lparr>code := Calls (map Put rest'), pc := Acquire, replies := replies P @ [Unit]\<rparr>"
        "q' = q\<lparr>queue := queue q @ [x], not_empty := notify (not_empty q), lock := None\<rparr>"
  using assms(1)
proof (cases rule: thread_move_cases)
  case (acquire c cs)
  then show ?thesis using assms(2) that(1) by auto
next
  case (put_wait x cs)
  then show ?thesis using assms(2) that(2) by auto
next
  case (put_pass x cs)
  then show ?thesis using assms(2) that(3) by auto
next
  case (put_woken x cs)
  then show ?thesis using assms(2) that(4) by auto
next
  case (put_commit x cs)
  then show ?thesis using assms(2) that(5)[of x "tl rest"] by (cases rest) auto
qed (use assms(2) in \<open>auto simp: map_eq_Cons_conv\<close>)

lemma consumer_move_cases [consumes 2, case_names acquire wait pass woken raise stop item]:
  assumes "thread_move t C q = Some (C', q')" "code C = Consume S \<or> code C = Calls []"
  obtains
    (acquire) "code C = Consume S" "pc C = Acquire" "lock q = None"
        "C' = C\<lparr>pc := Test\<rparr>" "q' = q\<lparr>lock := Some t\<rparr>"
  | (wait) "code C = Consume S" "pc C = Test" "queue q = []"
        "C' = C\<lparr>pc := Waiting\<rparr>" "q' = q\<lparr>not_empty := not_empty q @ [t], lock := None\<rparr>"
  | (pass) "code C = Consume S" "pc C = Test" "queue q \<noteq> []"
        "C' = C\<lparr>pc := Commit\<rparr>" "q' = q"
  | (woken) "code C = Consume S" "pc C = Waiting" "t \<notin> set (not_empty q)"
        "C' = C\<lparr>pc := Acquire\<rparr>" "q' = q"
  | (raise) "code C = Consume S" "pc C = Commit" "queue q = []"
        "C' = C\<lparr>code := Died IndexError\<rparr>" "q' = q\<lparr>lock := None\<rparr>"
  | (stop) x rest where "code C = Consume S" "pc C = Commit"
        "queue q = x # rest" "is_same x S"
        "C' = C\<lparr>code := Calls [], pc := Acquire\<rparr>"
        "q' = q\<lparr>queue := rest, not_full := notify (not_full q), lock := None\<rparr>"
  | (item) x rest where "code C = Consume S" "pc C = Commit"
        "queue q = x # rest" "\<not> is_same x S"
        "C' = C\<lparr>pc := Acquire, dest := dest C @ [x]\<rparr>"
        "q' = q\<lparr>queue := rest, not_full := notify (not_full q), lock := None\<rparr>"
  using assms(1)
proof (cases rule: thread_move_cases)
  case (consume_wait sentinel)
  then show ?thesis using assms(2) that(2) by auto
next
  case (consume_pass sentinel)
  then show ?thesis using assms(2) that(3) by auto
next
  case (consume_woken sentinel)
  then show ?thesis using assms(2) that(4) by auto
next
  case (consume_raise sentinel)
  then show ?thesis using assms(2) that(5) by auto
next
  case (consume_stop sentinel x rest)
  then show ?thesis using assms(2) that(6) by auto
next
  case (consume_item sentinel x rest)
  then show ?thesis using assms(2) that(7) by auto
next
  case (acquire_consume sentinel)
  then show ?thesis using assms(2) that(1) by auto
qed (use assms(2) in auto)

lemma pair_inv_producer:
  assumes inv: "pair_inv src S rest P C q" and mv: "thread_move 0 P q = Some (P', q')"
  shows "pair_inv src S (if pc P = Commit then tl rest else rest) P' C q'"
proof -
  from inv have tr: "transfer_inv src S rest P C q" and lk: "locking_inv P C q"
    and wt: "waiting_inv P C q" by (simp_all add: pair_inv_def)
  from tr have rest: "code P = Calls (map Put rest)" by (simp add: transfer_inv_def)
  have "transfer_inv src S (if pc P = Commit then tl rest else rest) P' C q'"
    using mv rest tr
    by (cases rule: producer_move_cases) (auto simp: transfer_inv_def split: if_splits)
  moreover have "locking_inv P' C q'"
    using mv rest lk by (cases rule: producer_move_cases) (auto simp: locking_inv_def)
  moreover have "waiting_inv P' C q'"
    using mv rest wt
    by (cases rule: producer_move_cases) (auto simp: waiting_inv_def notify_def)
  ultimately show ?thesis by (simp add: pair_inv_def)
qed

lemma pair_inv_consumer:
  assumes inv: "pair_inv src S rest P C q" and mv: "thread_move 1 C q = Some (C', q')"
    and nosent: "\<forall>x \<in> set src. \<not> is_same x S"
  shows "pair_inv src S rest P C' q'"
proof -
  from inv have tr: "transfer_inv src S rest P C q" and lk: "locking_inv P C q"
    and wt: "waiting_inv P C q" by (simp_all add: pair_inv_def)
  from tr have c: "code C = Consume S \<or> code C = Calls []"
    by (auto simp: transfer_inv_def split: if_splits)
  from wt have rd: "pc C = Commit \<longrightarrow> queue q \<noteq> []" by (simp add: waiting_inv_def)
  have "transfer_inv src S rest P C' q'"
    using mv c
  proof (cases rule: consumer_move_cases)
    case (stop x rest')
    from tr stop have eq: "dest C @ x # (rest' @ rest) = src @ [S]"
      by (simp add: transfer_inv_def)
    have "x \<notin> set src" using nosent stop(4) by auto
    from last_is_sentinel[OF eq this] have e: "dest C = src" "rest' = []" "rest = []" by auto
    with tr stop show ?thesis by (auto simp: transfer_inv_def split: if_splits)
  qed (use tr rd in \<open>auto simp: transfer_inv_def split: if_splits\<close>)
  moreover have "locking_inv P C' q'"
    using mv c lk rd by (cases rule: consumer_move_cases) (auto simp: locking_inv_def)
  moreover have "waiting_inv P C' q'"
    using mv c wt
    by (cases rule: consumer_move_cases) (auto simp: waiting_inv_def notify_def)
  ultimately show ?thesis by (simp add: pair_inv_def)
qed

lemma session_init:
  assumes "BoundedBlockingQueue c = Inr q"
  shows "session_inv src S (session q src S)"
proof -
  from assms have q: "q = \<lparr>maxsize = c, queue = [], lock = None, not_empty = [], not_full = []\<rparr>"
    and c: "0 < c"
    by (auto simp: BoundedBlockingQueue_def split: if_splits)
  have "pair_inv src S (src @ [S]) (Producer src S) (Consumer [] S) q"
    using c unfolding q
    by (simp add: pair_inv_def transfer_inv_def locking_inv_def waiting_inv_def
        Producer_def Consumer_def)
  then show ?thesis unfolding session_inv_def session_def by auto
qed

lemma session_step:
  assumes inv: "session_inv src S s" and st: "thread_step t s = Some s'"
    and nosent: "\<forall>x \<in> set src. \<not> is_same x S"
  shows "session_inv src S s'"
proof -
  from inv obtain rest P C where ths: "threads s = [P, C]"
    and pi: "pair_inv src S rest P C (shared s)"
    by (auto simp: session_inv_def)
  from st obtain th' q' where t: "t < length (threads s)"
    and mv: "thread_move t (threads s ! t) (shared s) = Some (th', q')"
    and s': "s' = \<lparr>shared = q', threads = (threads s)[t := th']\<rparr>"
    by (rule thread_stepE)
  from t ths have "t = 0 \<or> t = 1" by auto
  then show ?thesis
  proof
    assume t0: "t = 0"
    with mv ths have "thread_move 0 P (shared s) = Some (th', q')" by simp
    from pair_inv_producer[OF pi this] show ?thesis
      unfolding session_inv_def s' using ths t0 by auto
  next
    assume t1: "t = 1"
    with mv ths have "thread_move 1 C (shared s) = Some (th', q')" by simp
    from pair_inv_consumer[OF pi this nosent] show ?thesis
      unfolding session_inv_def s' using ths t1 by auto
  qed
qed

lemma session_reachable:
  assumes "session_inv src S s" "reachable s s'" "\<forall>x \<in> set src. \<not> is_same x S"
  shows "session_inv src S s'"
proof (rule step_reachable_induct[OF assms(2), where P = "session_inv src S"])
  show "session_inv src S s" by (rule assms(1))
next
  fix t a b assume "session_inv src S a" "thread_step t a = Some b"
  then show "session_inv src S b" using assms(3) by (rule session_step)
qed

lemma session_final:
  assumes inv: "session_inv src S s"
    and fin: "finished (threads s ! 0)" "finished (threads s ! 1)"
  shows "dest (threads s ! 1) = src \<and> queue (shared s) = [] \<and> lock (shared s) = None"
proof -
  from inv obtain rest P C where ths: "threads s = [P, C]"
    and pi: "pair_inv src S rest P C (shared s)"
    by (auto simp: session_inv_def)
  from fin ths have f: "code P = Calls []" "code C = Calls []" by (simp_all add: finished_def)
  from pi f show ?thesis using ths
    by (auto simp: pair_inv_def transfer_inv_def locking_inv_def split: if_splits)
qed

lemma session_progress:
  assumes inv: "session_inv src S s"
    and nf: "\<not> (finished (threads s ! 0) \<and> finished (threads s ! 1))"
  shows "\<exists>t s'. thread_step t s = Some s'"
proof -
  from inv obtain rest P C where ths: "threads s = [P, C]"
    and pi: "pair_inv src S rest P C (shared s)"
    by (auto simp: session_inv_def)
  let ?q = "shared s"
  from pi have tr: "transfer_inv src S rest P C ?q" and lk: "locking_inv P C ?q"
    and wt: "waiting_inv P C ?q" by (simp_all add: pair_inv_def)
  from tr have cp: "code P = Calls (map Put rest)" and r0: "rest = [] \<longrightarrow> pc P = Acquire"
    by (simp_all add: transfer_inv_def)
  have cc: "code C = Consume S"
  proof (rule ccontr)
    assume "code C \<noteq> Consume S"
    with tr have "code C = Calls []" "rest = []" by (simp_all add: transfer_inv_def)
    with cp nf ths show False by (simp add: finished_def)
  qed
  with tr have eq: "dest C @ queue ?q @ rest = src @ [S]"
    and ns: "\<forall>x \<in> set (dest C). \<not> is_same x S" by (simp_all add: transfer_inv_def)
  have pmoves: "thread_move 0 P ?q \<noteq> None"
    if "rest \<noteq> []" "pc P = Acquire \<longrightarrow> lock ?q = None" "pc P = Waiting \<longrightarrow> 0 \<notin> set (not_full ?q)"
  proof -
    from that(1) obtain x xs where "rest = x # xs" by (cases rest) auto
    with cp that(2,3) show ?thesis
      by (cases "pc P") (auto simp: thread_move_def)
  qed
  have cmoves: "thread_move 1 C ?q \<noteq> None"
    if "pc C = Acquire \<longrightarrow> lock ?q = None" "pc C = Waiting \<longrightarrow> 1 \<notin> set (not_empty ?q)"
    using cc that by (cases "pc C") (auto simp: thread_move_def split: list.splits)
  have "thread_move 0 P ?q \<noteq> None \<or> thread_move 1 C ?q \<noteq> None"
  proof (cases "pc C")
    case Acquire
    show ?thesis
    proof (cases "lock ?q = None")
      case True
      with Acquire cmoves show ?thesis by simp
    next
      case False
      with lk Acquire have p: "pc P = Test \<or> pc P = Commit"
        by (auto simp: locking_inv_def split: if_splits)
      with r0 have "rest \<noteq> []" by auto
      with p pmoves show ?thesis by auto
    qed
  next
    case Test
    with cmoves show ?thesis by simp
  next
    case Commit
    with cmoves show ?thesis by simp
  next
    case Waiting
    show ?thesis
    proof (cases "1 \<in> set (not_empty ?q)")
      case False
      with Waiting cmoves show ?thesis by simp
    next
      case True
      with wt have qe: "queue ?q = []" by (simp add: waiting_inv_def)
      have rne: "rest \<noteq> []"
      proof
        assume "rest = []"
        with eq qe have "S \<in> set (dest C)" by simp
        with ns show False by (auto simp: is_same_def)
      qed
      have a: "pc P = Acquire \<longrightarrow> lock ?q = None"
        using lk Waiting by (auto simp: locking_inv_def)
      have b: "pc P = Waiting \<longrightarrow> 0 \<notin> set (not_full ?q)"
        using wt qe by (auto simp: waiting_inv_def)
      from pmoves[OF rne a b] show ?thesis by simp
    qed
  qed
  then show ?thesis
  proof
    assume "thread_move 0 P ?q \<noteq> None"
    then obtain th' q' where "thread_move 0 P ?q = Some (th', q')" by auto
    then have "thread_step 0 s = Some \<lparr>shared = q', threads = (threads s)[0 := th']\<rparr>"
      using ths by (simp add: thread_step_def)
    then show ?thesis by blast
  next
    assume "thread_move 1 C ?q \<noteq> None"
    then obtain th' q' where "thread_move 1 C ?q = Some (th', q')" by auto
    then have "thread_step 1 s = Some \<lparr>shared = q', threads = (threads s)[1 := th']\<rparr>"
      using ths by (simp add: thread_step_def)
    then show ?thesis by blast
  qed
qed

lemma rank_notify: "rank (notify ws) t th \<le> rank ws t th + 3"
  by (cases ws) (auto simp: rank_def notify_def split: code.splits list.splits pc.splits)

lemma rank_calls:
  "code th = Calls (c # cs) \<Longrightarrow>
   rank ws t th = (case pc th of Acquire \<Rightarrow> 3 | Test \<Rightarrow> 2 | Commit \<Rightarrow> 1
                   | Waiting \<Rightarrow> if t \<in> set ws then 1 else 4)"
  by (simp add: rank_def)

lemma rank_consume:
  "code th = Consume S \<Longrightarrow>
   rank ws t th = (case pc th of Acquire \<Rightarrow> 3 | Test \<Rightarrow> 2 | Commit \<Rightarrow> 1
                   | Waiting \<Rightarrow> if t \<in> set ws then 1 else 4)"
  by (simp add: rank_def)

lemma rank_le_3: "pc th = Acquire \<Longrightarrow> rank ws t th \<le> 3"
  by (auto simp: rank_def split: code.splits list.splits)

lemma effort_producer:
  assumes mv: "thread_move 0 P q = Some (P', q')" and cp: "code P = Calls (map Put rest)"
  shows "effort \<lparr>shared = q', threads = [P', C]\<rparr> < effort \<lparr>shared = q, threads = [P, C]\<rparr>"
  using mv cp
proof (cases rule: producer_move_cases)
  case acquire
  then obtain x xs where "rest = x # xs" by (cases rest) auto
  with acquire cp show ?thesis by (simp add: effort_def rank_calls todo_def)
next
  case wait
  then obtain x xs where "rest = x # xs" by (cases rest) auto
  with wait cp show ?thesis by (simp add: effort_def rank_calls todo_def)
next
  case pass
  then obtain x xs where "rest = x # xs" by (cases rest) auto
  with pass cp show ?thesis by (simp add: effort_def rank_calls todo_def)
next
  case woken
  then obtain x xs where "rest = x # xs" by (cases rest) auto
  with woken cp show ?thesis by (simp add: effort_def rank_calls todo_def)
next
  case (commit x rest')
  have a: "rank (not_full q) 0 P = 1" using commit cp by (simp add: rank_calls)
  have b: "rank (not_full q) 0 P' \<le> 3" using commit by (intro rank_le_3) simp
  have c: "rank (notify (not_empty q)) 1 C \<le> rank (not_empty q) 1 C + 3" by (rule rank_notify)
  have d: "todo P = Suc (todo P')" using commit cp by (simp add: todo_def)
  from a b c d commit show ?thesis by (simp add: effort_def)
qed

lemma effort_consumer:
  assumes mv: "thread_move 1 C q = Some (C', q')" and cc: "code C = Consume S \<or> code C = Calls []"
  shows "effort \<lparr>shared = q', threads = [P, C']\<rparr> < effort \<lparr>shared = q, threads = [P, C]\<rparr>"
  using mv cc
proof (cases rule: consumer_move_cases)
  case (stop x rest)
  have a: "rank (not_empty q) 1 C = 1" using stop by (simp add: rank_consume)
  have b: "rank (not_empty q) 1 C' = 0" using stop by (simp add: rank_def)
  have c: "rank (notify (not_full q)) 0 P \<le> rank (not_full q) 0 P + 3" by (rule rank_notify)
  from a b c stop show ?thesis by (simp add: effort_def)
next
  case (item x rest)
  have a: "rank (not_empty q) 1 C = 1" using item by (simp add: rank_consume)
  have b: "rank (not_empty q) 1 C' \<le> 3" using item by (intro rank_le_3) simp
  have c: "rank (notify (not_full q)) 0 P \<le> rank (not_full q) 0 P + 3" by (rule rank_notify)
  from a b c item show ?thesis by (simp add: effort_def)
qed (simp_all add: effort_def rank_consume rank_def)

lemma session_effort:
  assumes inv: "session_inv src S s" and st: "thread_step t s = Some s'"
  shows "effort s' < effort s"
proof -
  from inv obtain rest P C where ths: "threads s = [P, C]"
    and pi: "pair_inv src S rest P C (shared s)"
    by (auto simp: session_inv_def)
  from pi have cp: "code P = Calls (map Put rest)"
    and cc: "code C = Consume S \<or> code C = Calls []"
    by (auto simp: pair_inv_def transfer_inv_def split: if_splits)
  from st obtain th' q' where t: "t < length (threads s)"
    and mv: "thread_move t (threads s ! t) (shared s) = Some (th', q')"
    and s': "s' = \<lparr>shared = q', threads = (threads s)[t := th']\<rparr>"
    by (rule thread_stepE)
  have s: "s = \<lparr>shared = shared s, threads = [P, C]\<rparr>" using ths by simp
  from t ths have "t = 0 \<or> t = 1" by auto
  then show ?thesis
  proof
    assume t0: "t = 0"
    with mv ths have "thread_move 0 P (shared s) = Some (th', q')" by simp
    from effort_producer[OF this cp, of C] show ?thesis
      unfolding s' using ths t0 s by (simp add: effort_def)
  next
    assume t1: "t = 1"
    with mv ths have "thread_move 1 C (shared s) = Some (th', q')" by simp
    from effort_consumer[OF this cc, of P] show ?thesis
      unfolding s' using ths t1 s by (simp add: effort_def)
  qed
qed

lemma session_no_infinite_run:
  assumes inv: "session_inv src S (f 0)" and run: "\<forall>i. step (f i) (f (Suc i))"
    and nosent: "\<forall>x \<in> set src. \<not> is_same x S"
  shows False
proof -
  have i: "session_inv src S (f i)" for i
  proof (induction i)
    case 0
    show ?case by (rule inv)
  next
    case (Suc i)
    from run obtain t where "thread_step t (f i) = Some (f (Suc i))" by (auto simp: step_iff)
    from session_step[OF Suc this nosent] show ?case .
  qed
  have "effort (f i) + i \<le> effort (f 0)" for i
  proof (induction i)
    case 0
    show ?case by simp
  next
    case (Suc i)
    from run obtain t where "thread_step t (f i) = Some (f (Suc i))" by (auto simp: step_iff)
    from session_effort[OF i this] Suc show ?case by simp
  qed
  from this[of "Suc (effort (f 0))"] show False by simp
qed

lemma source_data_no_sentinel: "\<forall>x \<in> set source_data. \<not> is_same x SENTINEL"
  by (auto simp: source_data_def SENTINEL_def is_same_def)

lemma source_data_values: "map val source_data = map IntV [1..20]"
  by (simp add: source_data_def comp_def)

text \<open>
  Claim C9 (end-to-end transfer).  With the source \<open>[1..20]\<close> and a queue of capacity
  10, in every state, under every interleaving of the two threads, in which the producer
  and the consumer have both completed, the destination equals \<open>[1..20]\<close> exactly and
  \<open>qsize\<close> returns 0.  Moreover both do complete: as long as one of them has not
  finished some thread can move, and no run goes on for ever.
\<close>

theorem end_to_end_transfer:
  "\<exists>s0. run_producer_consumer = Inr s0
     \<and> (\<forall>s. reachable s0 s \<and> finished (threads s ! 0) \<and> finished (threads s ! 1) \<longrightarrow>
            dest (threads s ! 1) = source_data
            \<and> map val (dest (threads s ! 1)) = map IntV [1..20]
            \<and> queue (shared s) = []
            \<and> qsize t (shared s) = Some (Inr 0, shared s))
     \<and> (\<forall>s. reachable s0 s \<and> \<not> (finished (threads s ! 0) \<and> finished (threads s ! 1)) \<longrightarrow>
            (\<exists>s'. step s s'))
     \<and> \<not> (\<exists>f. f 0 = s0 \<and> (\<forall>i. step (f i) (f (Suc i))))"
proof -
  let ?q = "\<lparr>maxsize = 10, queue = [], lock = None, not_empty = [], not_full = []\<rparr> :: pyval pyobj bbq"
  let ?s0 = "session ?q source_data SENTINEL"
  have q: "BoundedBlockingQueue 10 = Inr ?q" by (simp add: BoundedBlockingQueue_def)
  then have r: "run_producer_consumer = Inr ?s0" by (simp add: run_producer_consumer_def)
  have i0: "session_inv source_data SENTINEL ?s0" using q by (rule session_init)
  have inv: "session_inv source_data SENTINEL s" if "reachable ?s0 s" for s
    using session_reachable[OF i0 that source_data_no_sentinel] .
  have a: "dest (threads s ! 1) = source_data
            \<and> map val (dest (threads s ! 1)) = map IntV [1..20]
            \<and> queue (shared s) = []
            \<and> qsize t (shared s) = Some (Inr 0, shared s)"
    if "reachable ?s0 s" "finished (threads s ! 0)" "finished (threads s ! 1)" for s
  proof -
    from session_final[OF inv[OF that(1)] that(2,3)]
    have f: "dest (threads s ! 1) = source_data" "queue (shared s) = []" "lock (shared s) = None"
      by simp_all
    from qsize_returns[OF f(3), of t] f source_data_values show ?thesis by simp
  qed
  have b: "\<exists>s'. step s s'"
    if "reachable ?s0 s" "\<not> (finished (threads s ! 0) \<and> finished (threads s ! 1))" for s
    using session_progress[OF inv[OF that(1)] that(2)] by (auto simp: step_iff)
  have c: "\<not> (\<exists>f. f 0 = ?s0 \<and> (\<forall>i. step (f i) (f (Suc i))))"
  proof
    assume "\<exists>f. f 0 = ?s0 \<and> (\<forall>i. step (f i) (f (Suc i)))"
    then obtain f where f: "f 0 = ?s0" "\<forall>i. step (f i) (f (Suc i))" by blast
    from i0 f(1) have "session_inv source_data SENTINEL (f 0)" by simp
    from session_no_infinite_run[OF this f(2) source_data_no_sentinel] show False .
  qed
  from r a b c show ?thesis by blast
qed

theorem end_to_end_transfer_witness:
  "run_producer_consumer =
     Inr (session \<lparr>maxsize = 10, queue = [], lock = None, not_empty = [], not_full = []\<rparr>
            source_data SENTINEL)
   \<and> reachable
       (session \<lparr>maxsize = 10, queue = [], lock = None, not_empty = [], not_full = []\<rparr>
            source_data SENTINEL)
       \<lparr>shared = \<lparr>maxsize = 10, queue = [], lock = None, not_empty = [], not_full = []\<rparr>,
        threads = [\<lparr>code = Calls [], pc = Acquire, dest = [], replies = replicate 21 Unit\<rparr>,
                   \<lparr>code = Calls [], pc = Acquire, dest = source_data, replies = []\<rparr>]\<rparr>
   \<and> finished \<lparr>code = Calls [], pc = Acquire, dest = [],
                replies = replicate 21 (Unit :: pyval pyobj reply)\<rparr>
   \<and> finished \<lparr>code = Calls [], pc = Acquire, dest = source_data, replies = []\<rparr>
   \<and> map val source_data = map IntV [1..20]
   \<and> qsize 0 \<lparr>maxsize = 10, queue = [] :: pyval pyobj list, lock = None, not_empty = [],
               not_full = []\<rparr>
       = Some (Inr 0, \<lparr>maxsize = 10, queue = [], lock = None, not_empty = [], not_full = []\<rparr>)"
proof -
  let ?q = "\<lparr>maxsize = 10, queue = [], lock = None, not_empty = [], not_full = []\<rparr> :: pyval pyobj bbq"
  let ?s0 = "session ?q source_data SENTINEL"
  let ?P = "\<lparr>code = Calls [], pc = Acquire, dest = [],
             replies = replicate 21 (Unit :: pyval pyobj reply)\<rparr>"
  let ?C = "\<lparr>code = Calls [], pc = Acquire, dest = source_data, replies = []\<rparr>"
  let ?sF = "\<lparr>shared = ?q, threads = [?P, ?C]\<rparr>"
  have r: "run_producer_consumer = Inr ?s0"
    by (simp add: run_producer_consumer_def BoundedBlockingQueue_def)
  have "exec blocking_schedule ?s0 = Some ?sF" by code_simp
  then have re: "reachable ?s0 ?sF" by (rule exec_reachable)
  have fP: "finished ?P" and fC: "finished ?C" by (simp_all add: finished_def)
  from end_to_end_transfer[of 0] obtain s0 where s0: "run_producer_consumer = Inr s0"
    and all: "\<forall>s. reachable s0 s \<and> finished (threads s ! 0) \<and> finished (threads s ! 1) \<longrightarrow>
            dest (threads s ! 1) = source_data
            \<and> map val (dest (threads s ! 1)) = map IntV [1..20]
            \<and> queue (shared s) = []
            \<and> qsize 0 (shared s) = Some (Inr 0, shared s)"
    by blast
  from s0 have e: "s0 = ?s0" unfolding r by simp
  from all[rule_format, of ?sF] re fP fC e
  have "map val source_data = map IntV [1..20]"
    and "qsize 0 ?q = Some (Inr 0, ?q)" by simp_all
  with r re fP fC show ?thesis by (intro conjI)
qed

end
